theory Spec2Isabelle
  imports Complex_Main "HOL-Library.Word"
begin

unbundle bit_operations_syntax

section \<open>Bytes, addresses and memory\<close>

text \<open>
  A C \<open>char\<close> is one byte.  Whether plain \<open>char\<close> is signed is left to the platform ABI,
  so every comparison of two \<open>char\<close> values with \<open><=\<close> takes the signedness as a flag.
  Equality of bytes does not depend on it.
\<close>

type_synonym byte = "8 word"
type_synonym addr = nat

definition byte_of :: "char \<Rightarrow> byte" where
  "byte_of c = of_char c"

definition bytes_of :: "string \<Rightarrow> byte list" where
  "bytes_of s = map byte_of s"

definition char_le :: "bool \<Rightarrow> byte \<Rightarrow> byte \<Rightarrow> bool" where
  "char_le signed_char a b = (if signed_char then sint a \<le> sint b else unat a \<le> unat b)"

text \<open>
  Memory is a store from addresses to bytes.  Every access a function makes is logged, in
  program order, so that claims on which bytes are read and written can be stated.
\<close>

record mstate =
  mem :: "addr \<Rightarrow> byte"
  reads :: "addr list"
  writes :: "addr list"

definition load :: "addr \<Rightarrow> mstate \<Rightarrow> mstate" where
  "load a s = s\<lparr>reads := reads s @ [a]\<rparr>"

definition store :: "addr \<Rightarrow> byte \<Rightarrow> mstate \<Rightarrow> mstate" where
  "store a v s = s\<lparr>mem := (mem s)(a := v), writes := writes s @ [a]\<rparr>"

definition init_state :: "(addr \<Rightarrow> byte) \<Rightarrow> mstate" where
  "init_state m = \<lparr>mem = m, reads = [], writes = []\<rparr>"

definition mem_of :: "byte list \<Rightarrow> addr \<Rightarrow> byte" where
  "mem_of bs a = (if a < length bs then bs ! a else 0)"

definition window :: "(addr \<Rightarrow> byte) \<Rightarrow> addr \<Rightarrow> nat \<Rightarrow> byte list" where
  "window m p k = map (\<lambda>i. m (p + i)) [0..<k]"

section \<open>isi/util/query.cpp: normalize_kmer\<close>

text \<open>
  The scan loop
  \<^verbatim>\<open>while(*query_8 == *query_8_reverse && counter < kmer_size / 2)\<close>.
  The left operand of \<open>&&\<close> is evaluated first, so both bytes are read at every test of
  the condition, also at the one that leaves the loop.  The result is the triple of
  \<open>query_8\<close>, \<open>query_8_reverse\<close> and \<open>counter\<close> at loop exit, with the access log.
\<close>

function scan :: "nat \<Rightarrow> addr \<Rightarrow> addr \<Rightarrow> nat \<Rightarrow> mstate \<Rightarrow> (addr \<times> addr \<times> nat) \<times> mstate" where
  "scan kmer_size query_8 query_8_reverse counter s =
     (let s' = load query_8_reverse (load query_8 s) in
      if mem s query_8 = mem s query_8_reverse \<and> counter < kmer_size div 2
      then scan kmer_size (query_8 + 1) (query_8_reverse - 1) (counter + 1) s'
      else ((query_8, query_8_reverse, counter), s'))"
  by pat_completeness auto
termination
  by (relation "measure (\<lambda>(k, q, qr, c, s). k div 2 - c)") auto

declare scan.simps [simp del]

text \<open>
  \<open>std::reverse_copy(first, last, d_first)\<close> of the C++ standard library: with
  \<open>n = last - first\<close>, it assigns \<open>*(d_first + i) = *(last - 1 - i)\<close> for \<open>i\<close> from \<open>0\<close>
  up to \<open>n - 1\<close>.  The recursion is on the number \<open>n\<close> of elements left.
\<close>

fun reverse_copy_n :: "nat \<Rightarrow> addr \<Rightarrow> addr \<Rightarrow> mstate \<Rightarrow> mstate" where
  "reverse_copy_n 0 last_p d_first s = s"
| "reverse_copy_n (Suc n) last_p d_first s =
     reverse_copy_n n (last_p - 1) (d_first + 1)
       (store d_first (mem s (last_p - 1)) (load (last_p - 1) s))"

definition reverse_copy :: "addr \<Rightarrow> addr \<Rightarrow> addr \<Rightarrow> mstate \<Rightarrow> mstate" where
  "reverse_copy first_p last_p d_first s = reverse_copy_n (last_p - first_p) last_p d_first s"

text \<open>
  \<open>normalize_kmer(query_8, kmer_raw_8, kmer_size)\<close>: returns the pointer it yields and
  the memory with the access log.
\<close>

definition normalize_kmer :: "bool \<Rightarrow> addr \<Rightarrow> addr \<Rightarrow> nat \<Rightarrow> mstate \<Rightarrow> addr \<times> mstate" where
  "normalize_kmer signed_char query_8 kmer_raw_8 kmer_size s =
     (case scan kmer_size query_8 (query_8 + kmer_size) 0 s of
        ((q, qr, counter), s1) \<Rightarrow>
          (let s2 = load qr (load q s1) in
           if char_le signed_char (mem s1 q) (mem s1 qr)
           then (q - counter, s2)
           else (kmer_raw_8, reverse_copy (q - counter) (qr + counter) kmer_raw_8 s2)))"

text \<open>The \<open>kmer_size\<close> bytes that the returned pointer designates.\<close>

definition result_window :: "nat \<Rightarrow> addr \<times> mstate \<Rightarrow> byte list" where
  "result_window kmer_size r = window (mem (snd r)) (fst r) kmer_size"

text \<open>
  The reads of a scan that leaves the loop with \<open>counter = c\<close>: the \<open>c + 1\<close> tests of the
  loop condition, then the comparison with \<open><=\<close>.
\<close>

definition scan_reads :: "addr \<Rightarrow> nat \<Rightarrow> nat \<Rightarrow> addr list" where
  "scan_reads q k c = concat (map (\<lambda>i. [q + i, q + k - i]) [0..<Suc c]) @ [q + c, q + k - c]"

subsection \<open>The canonical form as the specification words it\<close>

text \<open>
  Reverse complement: \<open>A\<close> and \<open>T\<close> are exchanged, \<open>C\<close> and \<open>G\<close> are exchanged, every
  other byte maps to itself.  The canonical form is the lexicographic minimum of the window
  and its reverse complement, bytes compared by raw value.
\<close>

definition spec_complement :: "byte \<Rightarrow> byte" where
  "spec_complement c =
     (if c = byte_of CHR ''A'' then byte_of CHR ''T''
      else if c = byte_of CHR ''T'' then byte_of CHR ''A''
      else if c = byte_of CHR ''C'' then byte_of CHR ''G''
      else if c = byte_of CHR ''G'' then byte_of CHR ''C''
      else c)"

definition spec_reverse_complement :: "byte list \<Rightarrow> byte list" where
  "spec_reverse_complement w = map spec_complement (rev w)"

fun bytes_le :: "byte list \<Rightarrow> byte list \<Rightarrow> bool" where
  "bytes_le [] ys = True"
| "bytes_le (x # xs) [] = False"
| "bytes_le (x # xs) (y # ys) = (unat x < unat y \<or> (x = y \<and> bytes_le xs ys))"

definition spec_canonical :: "byte list \<Rightarrow> byte list" where
  "spec_canonical w =
     (if bytes_le w (spec_reverse_complement w) then w else spec_reverse_complement w)"

section \<open>cobs/query/classic_index/base.hpp\<close>

record ClassicIndexHeader =
  hdr_term_size :: "32 word"
  hdr_canonicalize :: "8 word"
  hdr_num_hashes :: "64 word"
  hdr_row_size :: "64 word"
  hdr_file_names :: "string list"

text \<open>
  The class \<open>base\<close> holds the header of the opened index; its accessors are the methods
  \<open>base::term_size\<close>, \<open>base::canonicalize\<close>, \<open>base::num_hashes\<close>, \<open>base::row_size\<close>,
  \<open>base::page_size\<close> and \<open>base::file_names\<close>.
\<close>

record base =
  header :: ClassicIndexHeader

definition base_term_size :: "base \<Rightarrow> 32 word" where
  "base_term_size b = hdr_term_size (header b)"

definition base_canonicalize :: "base \<Rightarrow> 8 word" where
  "base_canonicalize b = hdr_canonicalize (header b)"

definition base_num_hashes :: "base \<Rightarrow> 64 word" where
  "base_num_hashes b = hdr_num_hashes (header b)"

definition base_row_size :: "base \<Rightarrow> 64 word" where
  "base_row_size b = hdr_row_size (header b)"

definition base_page_size :: "base \<Rightarrow> 64 word" where
  "base_page_size b = 1"

definition base_file_names :: "base \<Rightarrow> string list" where
  "base_file_names b = hdr_file_names (header b)"


section \<open>src/cobs.cpp: print_basepair_map\<close>

text \<open>
  \<open>char basepair_map[256]\<close> after the \<open>memset\<close> to zero and the four assignments.
\<close>

definition basepair_map :: "byte list" where
  "basepair_map =
     (replicate 256 0)
       [unat (byte_of CHR ''A'') := byte_of CHR ''T'',
        unat (byte_of CHR ''C'') := byte_of CHR ''G'',
        unat (byte_of CHR ''G'') := byte_of CHR ''C'',
        unat (byte_of CHR ''T'') := byte_of CHR ''A'']"

text \<open>
  The table lookup \<open>basepair_map[c]\<close> for a byte \<open>c\<close> taken as an index from 0 to 255.
\<close>

definition basepair :: "byte \<Rightarrow> byte" where
  "basepair c = basepair_map ! unat c"

text \<open>
  What the subtool prints: \<open>int(basepair_map[i])\<close> for \<open>i\<close> from 0 to 255, each followed
  by a comma, with a line break after every sixteenth entry.  The output is modelled as the
  list of lines, each the list of the integers printed on it.
\<close>

definition char_to_int :: "bool \<Rightarrow> byte \<Rightarrow> int" where
  "char_to_int signed_char c = (if signed_char then sint c else uint c)"

definition print_basepair_map :: "bool \<Rightarrow> int list list" where
  "print_basepair_map signed_char =
     map (\<lambda>l. map (\<lambda>j. char_to_int signed_char (basepair_map ! (16 * l + j))) [0..<16]) [0..<16]"


section \<open>src/cobs.cpp: print_kmers\<close>

text \<open>
  \<open>cobs::canonicalize_kmer\<close> is declared in a header outside the sources at hand; the
  subtool takes it as the parameter \<open>canonicalize_kmer\<close>, from the \<open>kmer_size\<close> bytes at the
  pointer to the bytes printed.

  The loop is
  \<^verbatim>\<open>for (size_t i = 0; i < query.size() - kmer_size; i++)\<close>
  with the bound computed in \<open>size_t\<close>, that is modulo \<open>2^64\<close>.  The bytes of a
  \<open>std::string\<close> are followed by one terminating zero byte; a window that reaches beyond it
  is a read outside the string, which ends the run with \<open>Out_of_bounds\<close>.  The result is the
  list of lines written to standard output.  The model starts after the command line is
  parsed, with the query and \<open>kmer_size\<close> it yields.
\<close>

datatype fault = Out_of_bounds

definition loop_bound :: "string \<Rightarrow> nat \<Rightarrow> nat" where
  "loop_bound query kmer_size =
     unat ((of_nat (length query) :: 64 word) - of_nat kmer_size)"

function print_kmers_loop ::
  "(string \<Rightarrow> string) \<Rightarrow> string \<Rightarrow> nat \<Rightarrow> nat \<Rightarrow> nat \<Rightarrow> string list \<Rightarrow> fault + string list"
where
  "print_kmers_loop canonicalize_kmer query kmer_size bound i out =
     (if i < bound
      then if i + kmer_size \<le> length query + 1
           then print_kmers_loop canonicalize_kmer query kmer_size bound (i + 1)
                  (out @ [canonicalize_kmer (take kmer_size (drop i (query @ [CHR 0x00])))])
           else Inl Out_of_bounds
      else Inr out)"
  by pat_completeness auto
termination
  by (relation "measure (\<lambda>(c, q, k, bound, i, out). bound - i)") auto

declare print_kmers_loop.simps [simp del]

definition print_kmers :: "(string \<Rightarrow> string) \<Rightarrow> string \<Rightarrow> nat \<Rightarrow> fault + string list" where
  "print_kmers canonicalize_kmer query kmer_size =
     print_kmers_loop canonicalize_kmer query kmer_size (loop_bound query kmer_size) 0 []"

section \<open>src/cobs.cpp: the command-line tool\<close>

text \<open>
  The world a subtool runs in: the paths that exist in the file system and the lines
  written so far to standard output and to standard error.
\<close>

record world =
  fs :: "string set"
  out_lines :: "string list"
  err_lines :: "string list"

definition put_out :: "string list \<Rightarrow> world \<Rightarrow> world" where
  "put_out ls w = w\<lparr>out_lines := out_lines w @ ls\<rparr>"

definition put_err :: "string list \<Rightarrow> world \<Rightarrow> world" where
  "put_err ls w = w\<lparr>err_lines := err_lines w @ ls\<rparr>"

text \<open>
  How a subtool ends: it returns an \<open>int\<close>, or an exception leaves it, or it stops in
  \<open>die\<close>.

  Modelled from the spec: \<open>die\<close> is a macro whose definition is outside the sources at hand.
  It is modelled as ending the process at once with its message as the diagnostic (the
  specification: a single diagnostic line on standard error and a nonzero exit code);
  nothing after it runs.
\<close>

datatype outcome = Return int | Throw string | Die string

subsection \<open>StringToFileType\<close>

datatype FileType = Any | Text | Cortex | KMerBuffer | Fasta | Fastq

text \<open>\<open>tlx::to_lower\<close>: the letters \<open>A\<close> to \<open>Z\<close> become \<open>a\<close> to \<open>z\<close>.\<close>

definition lower_char :: "char \<Rightarrow> char" where
  "lower_char c =
     (if (65::nat) \<le> of_char c \<and> of_char c \<le> (90::nat)
      then char_of (of_char c + (32::nat)) else c)"

definition to_lower :: "string \<Rightarrow> string" where
  "to_lower s = map lower_char s"

definition StringToFileType :: "string \<Rightarrow> string + FileType" where
  "StringToFileType s0 =
     (let s = to_lower s0 in
      if s = ''any'' \<or> s = ''*'' then Inr Any
      else if s = ''text'' \<or> s = ''txt'' then Inr Text
      else if s = ''cortex'' \<or> s = ''ctx'' then Inr Cortex
      else if s = ''cobs'' \<or> s = ''cobs_doc'' then Inr KMerBuffer
      else if s = ''fasta'' then Inr Fasta
      else if s = ''fastq'' then Inr Fastq
      else Inl (''Unknown file type '' @ s))"

subsection \<open>The file system calls\<close>

text \<open>
  \<open>cobs::fs::exists(p)\<close> and \<open>cobs::fs::remove_all(p)\<close>: the latter removes \<open>p\<close> and every
  path below it.
\<close>

definition fs_exists :: "string set \<Rightarrow> string \<Rightarrow> bool" where
  "fs_exists paths p = (p \<in> paths)"

definition below :: "string \<Rightarrow> string \<Rightarrow> bool" where
  "below p q = (q = p \<or> take (length p + 1) q = p @ ''/'')"

definition remove_all :: "string \<Rightarrow> string set \<Rightarrow> string set" where
  "remove_all p paths = Set.filter (\<lambda>q. \<not> below p q) paths"

subsection \<open>classic_construct and compact_construct\<close>

text \<open>
  What the command-line parser hands to the two construction subtools.  The index
  parameters (memory, hashes, false positive rate, term size, threads) are passed on to the
  library untouched and are kept abstract.
\<close>

record 'p construct_args =
  in_dir :: string
  out_dir :: string
  file_type :: string
  clobber :: bool
  continue_flag :: bool
  index_params :: 'p

text \<open>
  The library is outside the sources at hand and is a parameter of the subtools:
  \<^item> \<open>cp_process\<close> is \<open>cp.sort().process(argc, argv)\<close>: the lines the parser writes to
    standard error and, when it succeeds, the parsed arguments;
  \<^item> \<open>cp_print_result\<close> gives the lines of \<open>cp.print_result(std::cerr)\<close>;
  \<^item> \<open>load_documents\<close> is the constructor of \<open>cobs::DocumentList\<close> followed by
    \<open>print_document_list\<close>: it may throw, and yields the document list;
  \<^item> \<open>lib_classic_construct\<close> and \<open>lib_compact_construct\<close> are
    \<open>cobs::classic_construct\<close> and \<open>cobs::compact_construct\<close>: they change the world and may
    throw (\<open>Some\<close> of the exception's message).
\<close>

text \<open>The check of the output directory, the same lines in both subtools.\<close>

definition check_output :: "'p construct_args \<Rightarrow> world \<Rightarrow> string + world" where
  "check_output a w =
     (if fs_exists (fs w) (out_dir a) then
        if clobber a then Inr (w\<lparr>fs := remove_all (out_dir a) (fs w)\<rparr>)
        else if continue_flag a then Inr w
        else Inl ''Output directory exists, will not overwrite without --clobber''
      else Inr w)"

text \<open>The lines of \<open>classic_construct\<close> after the check of the output directory.\<close>

definition classic_build ::
  "(string \<Rightarrow> FileType \<Rightarrow> world \<Rightarrow> (string + 'd) \<times> world) \<Rightarrow>
   ('d \<Rightarrow> string \<Rightarrow> 'p \<Rightarrow> world \<Rightarrow> string option \<times> world) \<Rightarrow>
   'p construct_args \<Rightarrow> world \<Rightarrow> outcome \<times> world" where
  "classic_build load_documents lib_classic_construct a w =
     (case StringToFileType (file_type a) of
        Inl msg \<Rightarrow> (Die msg, w)
      | Inr t \<Rightarrow>
          (case load_documents (in_dir a) t w of
             (Inl e, w1) \<Rightarrow> (Throw e, w1)
           | (Inr filelist, w1) \<Rightarrow>
               (case lib_classic_construct filelist (out_dir a) (index_params a) w1 of
                  (Some e, w2) \<Rightarrow> (Throw e, w2)
                | (None, w2) \<Rightarrow> (Return 0, w2))))"

definition classic_construct ::
  "(string list \<Rightarrow> string list \<times> 'p construct_args option) \<Rightarrow>
   ('p construct_args \<Rightarrow> string list) \<Rightarrow>
   (string \<Rightarrow> FileType \<Rightarrow> world \<Rightarrow> (string + 'd) \<times> world) \<Rightarrow>
   ('d \<Rightarrow> string \<Rightarrow> 'p \<Rightarrow> world \<Rightarrow> string option \<times> world) \<Rightarrow>
   string list \<Rightarrow> world \<Rightarrow> outcome \<times> world" where
  "classic_construct cp_process cp_print_result load_documents lib_classic_construct argv w =
     (case cp_process argv of
        (msgs, None) \<Rightarrow> (Return (- 1), put_err msgs w)
      | (msgs, Some a) \<Rightarrow>
          (let w1 = put_err (cp_print_result a) (put_err msgs w) in
           case check_output a w1 of
             Inl msg \<Rightarrow> (Die msg, w1)
           | Inr w2 \<Rightarrow> classic_build load_documents lib_classic_construct a w2))"

text \<open>The line of \<open>compact_construct\<close> after the check of the output directory.\<close>

definition compact_build ::
  "(string \<Rightarrow> string \<Rightarrow> 'p \<Rightarrow> world \<Rightarrow> string option \<times> world) \<Rightarrow>
   'p construct_args \<Rightarrow> world \<Rightarrow> outcome \<times> world" where
  "compact_build lib_compact_construct a w =
     (case lib_compact_construct (in_dir a) (out_dir a) (index_params a) w of
        (Some e, w1) \<Rightarrow> (Throw e, w1)
      | (None, w1) \<Rightarrow> (Return 0, w1))"

definition compact_construct ::
  "(string list \<Rightarrow> string list \<times> 'p construct_args option) \<Rightarrow>
   ('p construct_args \<Rightarrow> string list) \<Rightarrow>
   (string \<Rightarrow> string \<Rightarrow> 'p \<Rightarrow> world \<Rightarrow> string option \<times> world) \<Rightarrow>
   string list \<Rightarrow> world \<Rightarrow> outcome \<times> world" where
  "compact_construct cp_process cp_print_result lib_compact_construct argv w =
     (case cp_process argv of
        (msgs, None) \<Rightarrow> (Return (- 1), put_err msgs w)
      | (msgs, Some a) \<Rightarrow>
          (let w1 = put_err (cp_print_result a) (put_err msgs w) in
           case check_output a w1 of
             Inl msg \<Rightarrow> (Die msg, w1)
           | Inr w2 \<Rightarrow> compact_build lib_compact_construct a w2))"

subsection \<open>query\<close>

record query_args =
  in_file :: string
  query_string :: string
  num_results :: nat

text \<open>Printing an unsigned number in decimal, as \<open>operator<<\<close> does for a \<open>uint16_t\<close>.\<close>

definition digit :: "nat \<Rightarrow> char" where
  "digit d = char_of (48 + d)"

function decimal :: "nat \<Rightarrow> string" where
  "decimal n = (if n < 10 then [digit n] else decimal (n div 10) @ [digit (n mod 10)])"
  by pat_completeness auto
termination
  by (relation "measure id") auto

declare decimal.simps [simp del]

definition result_line :: "16 word \<times> string \<Rightarrow> string" where
  "result_line res = snd res @ '' - '' @ decimal (unat (fst res))"

text \<open>
  The library is a parameter again:
  \<^item> \<open>cp_process\<close> is the command-line parser, as above;
  \<^item> \<open>classic_header\<close> and \<open>compact_header\<close> are
    \<open>cobs::file_has_header<cobs::ClassicIndexHeader>\<close> and
    \<open>cobs::file_has_header<cobs::CompactIndexHeader>\<close> on a path;
  \<^item> \<open>classic_search\<close> and \<open>compact_search\<close> open the index and run
    \<open>ClassicSearch::search\<close>: they throw, or yield the result vector and the lines that
    printing the timer gives.
\<close>

definition query ::
  "(string list \<Rightarrow> string list \<times> query_args option) \<Rightarrow>
   (string \<Rightarrow> bool) \<Rightarrow> (string \<Rightarrow> bool) \<Rightarrow>
   (string \<Rightarrow> string \<Rightarrow> nat \<Rightarrow> string + (16 word \<times> string) list \<times> string list) \<Rightarrow>
   (string \<Rightarrow> string \<Rightarrow> nat \<Rightarrow> string + (16 word \<times> string) list \<times> string list) \<Rightarrow>
   string list \<Rightarrow> world \<Rightarrow> outcome \<times> world" where
  "query cp_process classic_header compact_header classic_search compact_search argv w =
     (case cp_process argv of
        (msgs, None) \<Rightarrow> (Return (- 1), put_err msgs w)
      | (msgs, Some a) \<Rightarrow>
          (let w1 = put_err msgs w in
           if classic_header (in_file a) then
             (case classic_search (in_file a) (query_string a) (num_results a) of
                Inl e \<Rightarrow> (Throw e, w1)
              | Inr (result, timer) \<Rightarrow> (Return 0, put_out (map result_line result @ timer) w1))
           else if compact_header (in_file a) then
             (case compact_search (in_file a) (query_string a) (num_results a) of
                Inl e \<Rightarrow> (Throw e, w1)
              | Inr (result, timer) \<Rightarrow> (Return 0, put_out (map result_line result @ timer) w1))
           else (Die (''Could not open index path \"'' @ in_file a @ ''\"''), w1)))"

subsection \<open>main\<close>

text \<open>
  The table \<open>subtools\<close>: name, \<open>shortline\<close> and description of every entry, in the order of
  the source.  The function pointer of an entry is looked up by the entry's name in the
  parameter \<open>impl\<close> of \<open>main\<close>.
\<close>

definition subtools :: "(string \<times> bool \<times> string) list" where
  "subtools =
     [(''doc_list'', True, ''read a list of documents and print the list''),
      (''doc_dump'', True, ''read a list of documents and dump their contents''),
      (''classic_construct'', True, ''constructs a classic index from the documents in <in_dir>''),
      (''classic_construct_random'', True, ''constructs a classic index with random content''),
      (''compact_construct'', True, ''creates the folders used for further construction''),
      (''compact_construct_combine'', True,
         ''combines the classic indices in <in_dir> to form a compact index''),
      (''ranfold_construct'', True, ''constructs a ranfold index from documents''),
      (''ranfold_construct_random'', True, ''constructs a ranfold index with random content''),
      (''query'', True, ''query an index''),
      (''print_parameters'', True, ''calculates index parameters''),
      (''print_kmers'', True, ''print all canonical kmers from <query>''),
      (''print_basepair_map'', True, ''print canonical basepair character mapping''),
      (''benchmark_fpr'', True, ''run benchmark and false positive measurement''),
      (''generate_queries'', True, ''select queries randomly from documents'')]"

text \<open>\<open>std::left << std::setw(n)\<close>: the text, filled with blanks on the right up to width \<open>n\<close>.\<close>

definition setw_left :: "nat \<Rightarrow> string \<Rightarrow> string" where
  "setw_left n t = t @ replicate (n - length t) CHR '' ''"

text \<open>
  \<open>main_usage\<close> writes to standard output and returns 0.  No entry of the table has
  \<open>shortline\<close> false, so its second loop, over those entries, writes nothing.
\<close>

definition shortlen :: nat where
  "shortlen = fold (\<lambda>(name, shortline, d) l. if shortline then max l (length name) else l) subtools 0"

definition usage_lines :: "string \<Rightarrow> string list" where
  "usage_lines arg0 =
     [''(Co)mpact (B)it-Sliced (S)ignature Index for Genome Search'', [],
      ''Usage: '' @ arg0 @ '' <subtool> ...'', [],
      ''Available subtools: ''] @
     map (\<lambda>(name, shortline, d). ''  '' @ setw_left (shortlen + 2) name @ d)
       (filter (\<lambda>(name, shortline, d). shortline) subtools) @
     [[]]"

definition main_usage :: "string \<Rightarrow> world \<Rightarrow> outcome \<times> world" where
  "main_usage arg0 w = (Return 0, put_out (usage_lines arg0) w)"

text \<open>
  The \<open>try\<close> block of \<open>main\<close> around the call of the subtool: a \<open>std::exception\<close> is
  reported on standard error and turned into the return value \<open>-1\<close>.
\<close>

definition try_subtool :: "outcome \<times> world \<Rightarrow> outcome \<times> world" where
  "try_subtool r =
     (case r of
        (Throw e, w) \<Rightarrow> (Return (- 1), put_err [''EXCEPTION: '' @ e] w)
      | _ \<Rightarrow> r)"

text \<open>
  The loop of \<open>main\<close> over the table.  \<open>argv[0]\<close> is \<open>arg0\<close>, the other arguments are
  \<open>args\<close>; the subtool is called with \<open>argv[1]\<close> replaced by \<open>progsub\<close>, which
  \<open>snprintf\<close> cuts to 255 characters.  \<open>None\<close> stands for leaving the loop without a match.
\<close>

fun main_loop ::
  "(string \<Rightarrow> string list \<Rightarrow> world \<Rightarrow> outcome \<times> world) \<Rightarrow> (string \<times> bool \<times> string) list \<Rightarrow>
   string \<Rightarrow> string \<Rightarrow> string list \<Rightarrow> world \<Rightarrow> (outcome \<times> world) option" where
  "main_loop impl [] arg0 arg1 rest w = None"
| "main_loop impl ((name, shortline, d) # ts) arg0 arg1 rest w =
     (if name = arg1
      then Some (try_subtool (impl name (take 255 (arg0 @ '' '' @ arg1) # rest) w))
      else main_loop impl ts arg0 arg1 rest w)"

definition main ::
  "(string \<Rightarrow> string list \<Rightarrow> world \<Rightarrow> outcome \<times> world) \<Rightarrow> string \<Rightarrow> string list \<Rightarrow> world \<Rightarrow>
   outcome \<times> world" where
  "main impl arg0 args w =
     (case args of
        [] \<Rightarrow> main_usage arg0 w
      | arg1 # rest \<Rightarrow>
          (case main_loop impl subtools arg0 arg1 rest w of
             Some r \<Rightarrow> r
           | None \<Rightarrow> main_usage arg0 (put_out [''Unknown subtool '' @ [CHR 0x27] @ arg1 @ [CHR 0x27]] w)))"

text \<open>An empty world, and a stand-in for the subtools that does nothing and returns 0.\<close>

definition empty_world :: world where
  "empty_world = \<lparr>fs = {}, out_lines = [], err_lines = []\<rparr>"

definition idle_impl :: "string \<Rightarrow> string list \<Rightarrow> world \<Rightarrow> outcome \<times> world" where
  "idle_impl name argv w = (Return 0, w)"

text \<open>
  A stand-in for a run of \<open>main\<close> through an error: the parser of \<open>query\<close> takes the two
  positional arguments, no file has an index header, \<open>doc_list\<close> throws, and every
  other subtool returns 0.
\<close>

definition demo_cp_process :: "string list \<Rightarrow> string list \<times> query_args option" where
  "demo_cp_process argv =
     (case argv of
        [prog, f, q] \<Rightarrow> ([], Some \<lparr>in_file = f, query_string = q, num_results = 100\<rparr>)
      | _ \<Rightarrow> ([''Error: wrong number of arguments''], None))"

definition demo_search :: "string \<Rightarrow> string \<Rightarrow> nat \<Rightarrow> string + (16 word \<times> string) list \<times> string list" where
  "demo_search f q n = Inr ([], [])"

definition demo_impl :: "string \<Rightarrow> string list \<Rightarrow> world \<Rightarrow> outcome \<times> world" where
  "demo_impl name argv w =
     (if name = ''query''
      then query demo_cp_process (\<lambda>f. False) (\<lambda>f. False) demo_search demo_search argv w
      else if name = ''doc_list'' then (Throw ''no such directory'', w)
      else (Return 0, w))"

subsection \<open>print_parameters and the Bloom filter sizing\<close>

text \<open>
  Modelled from the spec: \<open>cobs::calc_signature_size_ratio\<close> and
  \<open>cobs::calc_signature_size\<close> are declared in \<open>cobs/util/calc_signature_size.hpp\<close>, which is
  outside the sources at hand.  The specification gives the bits-per-element ratio for
  \<open>h\<close> hashes and false positive rate \<open>p\<close>, and the signature size as the ceiling of
  \<open>n\<close> times that ratio, at least 1.  The arithmetic is that of the real numbers; the
  rounding of \<open>double\<close> and the range of \<open>uint64_t\<close> are not modelled.
\<close>

definition calc_signature_size_ratio :: "nat \<Rightarrow> real \<Rightarrow> real" where
  "calc_signature_size_ratio num_hashes false_positive_rate =
     - real num_hashes / ln (1 - false_positive_rate powr (1 / real num_hashes))"

definition calc_signature_size :: "nat \<Rightarrow> nat \<Rightarrow> real \<Rightarrow> nat" where
  "calc_signature_size num_elements num_hashes false_positive_rate =
     max 1 (nat \<lceil>real num_elements * calc_signature_size_ratio num_hashes false_positive_rate\<rceil>)"

text \<open>
  The subtool \<open>print_parameters\<close> after the command line is parsed: without a number of
  elements it prints the ratio, otherwise the signature size in bits and in bytes.
\<close>

datatype parameters_output = Ratio real | Signature nat nat

definition print_parameters :: "nat \<Rightarrow> real \<Rightarrow> nat \<Rightarrow> parameters_output" where
  "print_parameters num_hashes false_positive_rate num_elements =
     (if num_elements = 0
      then Ratio (calc_signature_size_ratio num_hashes false_positive_rate)
      else (let signature_size = calc_signature_size num_elements num_hashes false_positive_rate
            in Signature signature_size (signature_size div 8)))"

section \<open>The index and the search\<close>

text \<open>
  Modelled from the spec: the construction of an index (\<open>cobs/construction/classic_index\<close>,
  \<open>cobs/construction/compact_index\<close>) and the search (\<open>cobs/query/classic_search\<close>) are
  outside the sources at hand; only their callers in \<open>src/cobs.cpp\<close> and the tests in
  \<open>tests/compact_index_query.cpp\<close> are there.  This section follows the data model and the
  algorithms of the specification.
\<close>

subsection \<open>Terms, hashes and documents\<close>

text \<open>
  Modelled from the spec: a document source yields the name of the document and the
  \<open>k\<close>-mers it emits. The hash family is a parameter: \<open>hash i t\<close> is
  the \<open>i\<close>-th 64-bit hash of the term \<open>t\<close>. Each hash is reduced
  modulo the signature size \<open>m\<close> to a row index.
\<close>

record document =
  doc_name :: string
  doc_terms :: "byte list list"

definition row_indices :: "(nat \<Rightarrow> byte list \<Rightarrow> 64 word) \<Rightarrow> byte list \<Rightarrow> nat \<Rightarrow> nat \<Rightarrow> nat list" where
  "row_indices hash t h m = map (\<lambda>i. unat (hash i t) mod m) [0..<h]"

definition canonical_term :: "bool \<Rightarrow> byte list \<Rightarrow> byte list" where
  "canonical_term c t = (if c then spec_canonical t else t)"

subsection \<open>Classic index\<close>

text \<open>
  Modelled from the spec: the header fields and the body: \<open>signature_size\<close> rows
  of \<open>row_size\<close> bytes, stored row after row.
\<close>

record classic_index =
  term_size :: nat
  canonicalize :: bool
  num_hashes :: nat
  signature_size :: nat
  row_size :: nat
  file_names :: "string list"
  body :: "byte list"

text \<open>
  Modelled from the spec: batch materialisation: the Bloom filter of a document is a vector of
  \<open>m\<close> bits; for each of its \<open>k\<close>-mers, canonicalised if configured,
  the bits at its \<open>h\<close> row indices are set.
\<close>

definition insert_term ::
  "(nat \<Rightarrow> byte list \<Rightarrow> 64 word) \<Rightarrow> bool \<Rightarrow> nat \<Rightarrow> nat \<Rightarrow> byte list \<Rightarrow> bool list \<Rightarrow> bool list" where
  "insert_term hash c h m t f =
     fold (\<lambda>r g. g[r := True]) (row_indices hash (canonical_term c t) h m) f"

definition doc_filter ::
  "(nat \<Rightarrow> byte list \<Rightarrow> 64 word) \<Rightarrow> bool \<Rightarrow> nat \<Rightarrow> nat \<Rightarrow> byte list list \<Rightarrow> bool list" where
  "doc_filter hash c h m ts = fold (insert_term hash c h m) ts (replicate m False)"

text \<open>
  Modelled from the spec: batch serialisation: row \<open>r\<close> holds bit \<open>r\<close>
  of every document's filter, eight documents to a byte, the lowest document index in the
  least significant bit; the unused bits of the last byte are zero.
\<close>

definition pack_byte :: "bool list \<Rightarrow> byte" where
  "pack_byte bits = horner_sum of_bool 2 bits"

definition pack_row :: "bool list \<Rightarrow> byte list" where
  "pack_row bits =
     map (\<lambda>b. pack_byte (take 8 (drop (8 * b) bits))) [0..<(length bits + 7) div 8]"

definition max_terms :: "document list \<Rightarrow> nat" where
  "max_terms docs = fold (\<lambda>d n. max n (length (doc_terms d))) docs 0"

text \<open>
  Modelled from the spec: the classic builder. The signature size is \<open>sig_size\<close>
  of the largest number of terms of a document; \<open>sig_size\<close> stands for the Bloom
  filter sizing with the configured number of hashes and false positive rate. A merge of
  batches puts the documents' bits of a row side by side, so the final body is the
  serialisation of all documents in input order.
\<close>

definition classic_builder ::
  "(nat \<Rightarrow> byte list \<Rightarrow> 64 word) \<Rightarrow> (nat \<Rightarrow> nat) \<Rightarrow> nat \<Rightarrow> bool \<Rightarrow> nat \<Rightarrow> document list \<Rightarrow>
   classic_index" where
  "classic_builder hash sig_size k c h docs =
     (let m = sig_size (max_terms docs);
          filters = map (\<lambda>d. doc_filter hash c h m (doc_terms d)) docs
      in \<lparr>term_size = k, canonicalize = c, num_hashes = h, signature_size = m,
           row_size = (length docs + 7) div 8,
           file_names = map doc_name docs,
           body = concat (map (\<lambda>r. pack_row (map (\<lambda>f. f ! r) filters)) [0..<m])\<rparr>)"

subsection \<open>Search\<close>

text \<open>
  Modelled from the spec: k-mer extraction: the \<open>|Q| - k + 1\<close> windows of the
  query, by starting position.
\<close>

definition kmers :: "byte list \<Rightarrow> nat \<Rightarrow> byte list list" where
  "kmers q k = map (\<lambda>i. take k (drop i q)) [0..<length q + 1 - k]"

text \<open>
  Modelled from the spec: row fetch: row \<open>r\<close> lies at offset \<open>r *
  row_size\<close> of the body.
\<close>

definition fetch_row :: "classic_index \<Rightarrow> nat \<Rightarrow> byte list" where
  "fetch_row idx r = take (row_size idx) (drop (r * row_size idx) (body idx))"

definition kmer_rows :: "(nat \<Rightarrow> byte list \<Rightarrow> 64 word) \<Rightarrow> classic_index \<Rightarrow> byte list \<Rightarrow> byte list list" where
  "kmer_rows hash idx t =
     map (fetch_row idx)
       (row_indices hash (canonical_term (canonicalize idx) t) (num_hashes idx) (signature_size idx))"

text \<open>
  Modelled from the spec: bit \<open>i\<close> of a row: bit \<open>i mod 8\<close> of byte
  \<open>i div 8\<close>, for the bytes the row has.
\<close>

definition bit_at :: "byte list \<Rightarrow> nat \<Rightarrow> bool" where
  "bit_at row i = (i div 8 < length row \<and> bit (row ! (i div 8)) (i mod 8))"

text \<open>
  Modelled from the spec: the \<open>h\<close> fetched rows of a \<open>k\<close>-mer are
  combined with AND into a row-sized buffer.
\<close>

definition and_rows :: "nat \<Rightarrow> byte list list \<Rightarrow> byte list" where
  "and_rows n rows = fold (\<lambda>row buf. map (\<lambda>(x, y). x AND y) (zip row buf)) rows (replicate n 255)"

text \<open>
  Modelled from the spec: for each byte position \<open>b\<close> of the combined row and each
  of its bits \<open>j\<close>, the 16-bit counter \<open>8 b + j\<close> is incremented when
  the bit is set.
\<close>

definition add_row :: "byte list \<Rightarrow> 16 word list \<Rightarrow> 16 word list" where
  "add_row buf counters =
     map (\<lambda>(i, c). if bit_at buf i then c + 1 else c) (zip [0..<length counters] counters)"

definition accumulate ::
  "(nat \<Rightarrow> byte list \<Rightarrow> 64 word) \<Rightarrow> classic_index \<Rightarrow> byte list list \<Rightarrow> 16 word list" where
  "accumulate hash idx ts =
     fold (\<lambda>t counters. add_row (and_rows (row_size idx) (kmer_rows hash idx t)) counters) ts
       (replicate (8 * row_size idx) 0)"

text \<open>
  Modelled from the spec: the score of every document of the index, in document order.
\<close>

definition scores :: "(nat \<Rightarrow> byte list \<Rightarrow> 64 word) \<Rightarrow> classic_index \<Rightarrow> byte list \<Rightarrow> 16 word list" where
  "scores hash idx q =
     take (length (file_names idx)) (accumulate hash idx (kmers q (term_size idx)))"

text \<open>
  Modelled from the spec: top-K selection: descending by score, ties by ascending document
  index (the sort is stable and starts from document order), at most \<open>K\<close> pairs of
  score and name.
\<close>

definition top_k :: "nat \<Rightarrow> (16 word \<times> string) list \<Rightarrow> (16 word \<times> string) list" where
  "top_k K scored = take K (sort_key (\<lambda>(s, name). - int (unat s)) scored)"

definition search ::
  "(nat \<Rightarrow> byte list \<Rightarrow> 64 word) \<Rightarrow> classic_index \<Rightarrow> byte list \<Rightarrow> nat \<Rightarrow> (16 word \<times> string) list" where
  "search hash idx q K = top_k K (zip (scores hash idx q) (file_names idx))"

text \<open>
  Modelled from the spec: the \<open>h\<close>-wise AND test of a \<open>k\<close>-mer for
  document \<open>d\<close>, and the number of \<open>k\<close>-mers of a query that pass it.
\<close>

definition passes :: "(nat \<Rightarrow> byte list \<Rightarrow> 64 word) \<Rightarrow> classic_index \<Rightarrow> nat \<Rightarrow> byte list \<Rightarrow> bool" where
  "passes hash idx d t = list_all (\<lambda>row. bit_at row d) (kmer_rows hash idx t)"

definition passing :: "(nat \<Rightarrow> byte list \<Rightarrow> 64 word) \<Rightarrow> classic_index \<Rightarrow> nat \<Rightarrow> byte list \<Rightarrow> nat" where
  "passing hash idx d q = length (filter (passes hash idx d) (kmers q (term_size idx)))"

subsection \<open>Compact index\<close>

text \<open>
  Modelled from the spec: the documents are cut, in input order, into pages of
  \<open>page_size\<close> documents, the last one possibly short. Each page is a classic
  index of its own, with its own signature size. A query is run on every page; the per-page
  results are put together and sorted again.
\<close>

function pages_of :: "nat \<Rightarrow> 'a list \<Rightarrow> 'a list list" where
  "pages_of n xs = (if n = 0 \<or> xs = [] then [] else take n xs # pages_of n (drop n xs))"
  by pat_completeness auto
termination
  by (relation "measure (\<lambda>(n, xs). length xs)") auto

declare pages_of.simps [simp del]

record compact_index =
  page_size :: nat
  pages :: "classic_index list"

definition compact_builder ::
  "(nat \<Rightarrow> byte list \<Rightarrow> 64 word) \<Rightarrow> (nat \<Rightarrow> nat) \<Rightarrow> nat \<Rightarrow> bool \<Rightarrow> nat \<Rightarrow> nat \<Rightarrow> document list \<Rightarrow>
   compact_index" where
  "compact_builder hash sig_size k c h P docs =
     \<lparr>page_size = P, pages = map (classic_builder hash sig_size k c h) (pages_of P docs)\<rparr>"

definition compact_scores ::
  "(nat \<Rightarrow> byte list \<Rightarrow> 64 word) \<Rightarrow> compact_index \<Rightarrow> byte list \<Rightarrow> 16 word list" where
  "compact_scores hash cidx q = concat (map (\<lambda>pg. scores hash pg q) (pages cidx))"

definition compact_names :: "compact_index \<Rightarrow> string list" where
  "compact_names cidx = concat (map file_names (pages cidx))"

definition search_pages ::
  "(nat \<Rightarrow> byte list \<Rightarrow> 64 word) \<Rightarrow> compact_index \<Rightarrow> byte list \<Rightarrow> nat \<Rightarrow> (16 word \<times> string) list" where
  "search_pages hash cidx q K = top_k K (zip (compact_scores hash cidx q) (compact_names cidx))"

subsection \<open>A small collection to try the index on\<close>

text \<open>
  A hash family, a sizing and three documents for concrete runs, and a collection of one
  document whose only term is the single byte \<open>A\<close>, indexed with a signature of one row.
\<close>

definition demo_hash :: "nat \<Rightarrow> byte list \<Rightarrow> 64 word" where
  "demo_hash i t = of_nat (7 * i + foldr (\<lambda>b a. 31 * a + unat b) t 0)"

definition demo_sig_size :: "nat \<Rightarrow> nat" where
  "demo_sig_size n = max 1 (5 * n)"

definition demo_docs :: "document list" where
  "demo_docs =
     [\<lparr>doc_name = ''d0'', doc_terms = [bytes_of ''ACGT'', bytes_of ''CGTA'']\<rparr>,
      \<lparr>doc_name = ''d1'', doc_terms = [bytes_of ''GGGG'']\<rparr>,
      \<lparr>doc_name = ''d2'', doc_terms = [bytes_of ''TTTT'', bytes_of ''ACGT'']\<rparr>]"

definition demo_index :: classic_index where
  "demo_index = classic_builder demo_hash demo_sig_size 4 False 2 demo_docs"

definition demo_pages :: compact_index where
  "demo_pages = compact_builder demo_hash demo_sig_size 4 False 2 2 demo_docs"

definition one_doc :: "document list" where
  "one_doc = [\<lparr>doc_name = ''d0'', doc_terms = [[65]]\<rparr>]"

definition one_index :: classic_index where
  "one_index = classic_builder demo_hash (\<lambda>n. 1) 1 False 1 one_doc"

text \<open>A small run of the two subtools: arguments and a file system to try them on.\<close>

definition demo_args :: "bool \<Rightarrow> unit construct_args" where
  "demo_args c = \<lparr>in_dir = ''in'', out_dir = ''out'', file_type = ''any'',
     clobber = c, continue_flag = False, index_params = ()\<rparr>"

text \<open>
  A stand-in library for the run: the document list is the input directory's name, and a
  construction writes one index file below the output directory.
\<close>

definition demo_load_documents :: "string \<Rightarrow> FileType \<Rightarrow> world \<Rightarrow> (string + string list) \<times> world" where
  "demo_load_documents d t w = (Inr [d], w)"

definition demo_lib_classic_construct :: "string list \<Rightarrow> string \<Rightarrow> unit \<Rightarrow> world \<Rightarrow> string option \<times> world" where
  "demo_lib_classic_construct docs p u w = (None, w\<lparr>fs := fs w \<union> {p, p @ ''/index.cobs''}\<rparr>)"

definition demo_lib_compact_construct :: "string \<Rightarrow> string \<Rightarrow> unit \<Rightarrow> world \<Rightarrow> string option \<times> world" where
  "demo_lib_compact_construct d p u w = (None, w\<lparr>fs := fs w \<union> {p, p @ ''/index.com_idx.cobs''}\<rparr>)"

definition demo_world :: world where
  "demo_world = \<lparr>fs = {''in'', ''out'', ''out/index.cobs''}, out_lines = [], err_lines = []\<rparr>"

section \<open>Verification: normalize_kmer\<close>

lemma upt_Suc_shift: "[0..<Suc n] = 0 # map Suc [0..<n]"
proof -
  have "[0..<Suc n] = 0 # [Suc 0..<Suc n]"
    by (rule upt_conv_Cons) simp
  then show ?thesis
    by (simp only: map_Suc_upt)
qed

lemma scan_result:
  "scan k q qr c s = ((q', qr', c'), s') \<Longrightarrow> k div 2 - c \<le> qr \<Longrightarrow>
   \<exists>n. c' = c + n \<and> (n = 0 \<or> c' \<le> k div 2) \<and> q' = q + n \<and> qr' + n = qr
     \<and> mem s' = mem s \<and> writes s' = writes s
     \<and> reads s' = reads s @ concat (map (\<lambda>i. [q + i, qr - i]) [0..<Suc n])
     \<and> (\<forall>i<n. mem s (q + i) = mem s (qr - i))
     \<and> \<not> (mem s q' = mem s qr' \<and> c' < k div 2)"
proof (induction k q qr c s arbitrary: q' qr' c' s' rule: scan.induct)
  case (1 k q qr c s)
  let ?s1 = "load qr (load q s)"
  show ?case
  proof (cases "mem s q = mem s qr \<and> c < k div 2")
    case True
    with "1.prems"(1) have rec: "scan k (q + 1) (qr - 1) (c + 1) ?s1 = ((q', qr', c'), s')"
      by (simp add: scan.simps [of k q qr c s] Let_def)
    from True "1.prems"(2) have qr1: "k div 2 - (c + 1) \<le> qr - 1" and qrpos: "0 < qr"
      by auto
    from "1.IH" [OF refl True rec qr1]
    obtain n where n: "c' = c + 1 + n" "n = 0 \<or> c' \<le> k div 2" "q' = q + 1 + n" "qr' + n = qr - 1"
      "mem s' = mem ?s1" "writes s' = writes ?s1"
      "reads s' = reads ?s1 @ concat (map (\<lambda>i. [q + 1 + i, qr - 1 - i]) [0..<Suc n])"
      "\<forall>i<n. mem ?s1 (q + 1 + i) = mem ?s1 (qr - 1 - i)"
      "\<not> (mem ?s1 q' = mem ?s1 qr' \<and> c' < k div 2)"
      by blast
    have memeq: "mem ?s1 = mem s" by (simp add: load_def)
    have rd: "reads s' = reads s @ concat (map (\<lambda>i. [q + i, qr - i]) [0..<Suc (Suc n)])"
      unfolding n(7) upt_Suc_shift [of "Suc n"]
      by (simp add: load_def comp_def del: upt_Suc)
    have eqs: "\<forall>i<Suc n. mem s (q + i) = mem s (qr - i)"
    proof (intro allI impI)
      fix i assume "i < Suc n"
      show "mem s (q + i) = mem s (qr - i)"
      proof (cases i)
        case 0 with True show ?thesis by simp
      next
        case (Suc j)
        with \<open>i < Suc n\<close> n(8) memeq have "mem s (q + 1 + j) = mem s (qr - 1 - j)" by simp
        with Suc show ?thesis by simp
      qed
    qed
    show ?thesis
      apply (rule exI [of _ "Suc n"])
      using n True qrpos rd eqs memeq by (auto simp: load_def)
  next
    case False
    with "1.prems"(1) have "q' = q" "qr' = qr" "c' = c" "s' = ?s1"
      by (auto simp: scan.simps [of k q qr c s] Let_def)
    with False show ?thesis
      by (auto simp: load_def)
  qed
qed

lemma reverse_copy_n_log:
  "reads (reverse_copy_n n l d s) = reads s @ map (\<lambda>i. l - 1 - i) [0..<n] \<and>
   writes (reverse_copy_n n l d s) = writes s @ map (\<lambda>i. d + i) [0..<n]"
proof (induction n arbitrary: l d s)
  case 0
  show ?case by simp
next
  case (Suc n)
  have "[0..<Suc n] = 0 # map Suc [0..<n]"
    by (rule upt_Suc_shift)
  then show ?case
    by (simp add: Suc.IH load_def store_def comp_def del: upt_Suc)
qed

lemma reverse_copy_n_outside:
  "a < d \<or> d + n \<le> a \<Longrightarrow> mem (reverse_copy_n n l d s) a = mem s a"
proof (induction n arbitrary: l d s)
  case 0
  show ?case by simp
next
  case (Suc n)
  from Suc.prems have "a < d + 1 \<or> d + 1 + n \<le> a" and "a \<noteq> d" by auto
  with Suc.IH [of "d + 1" "l - 1"] show ?case
    by (simp add: load_def store_def)
qed

lemma reverse_copy_n_inside:
  "i < n \<Longrightarrow> n \<le> l \<Longrightarrow> l \<le> d \<or> d + n \<le> l - n \<Longrightarrow>
   mem (reverse_copy_n n l d s) (d + i) = mem s (l - 1 - i)"
proof (induction n arbitrary: l d s i)
  case 0
  then show ?case by simp
next
  case (Suc n)
  let ?s1 = "store d (mem s (l - 1)) (load (l - 1) s)"
  show ?case
  proof (cases i)
    case 0
    have "mem (reverse_copy_n n (l - 1) (d + 1) ?s1) d = mem ?s1 d"
      by (rule reverse_copy_n_outside) simp
    with 0 show ?thesis by (simp add: store_def load_def)
  next
    case (Suc j)
    with Suc.prems have j: "j < n" "n \<le> l - 1" "l - 1 \<le> d + 1 \<or> d + 1 + n \<le> l - 1 - n"
      by auto
    from Suc.prems Suc have ne: "l - 1 - 1 - j \<noteq> d" by auto
    have "mem (reverse_copy_n n (l - 1) (d + 1) ?s1) (d + 1 + j) = mem ?s1 (l - 1 - 1 - j)"
      by (rule Suc.IH [OF j])
    with ne Suc show ?thesis by (simp add: store_def load_def)
  qed
qed

lemma normalize_kmer_cases:
  assumes run: "normalize_kmer sg q b k s = (p, s')"
  shows "\<exists>c\<le>k div 2.
     fst (scan k q (q + k) 0 s) = (q + c, q + k - c, c) \<and>
     (\<forall>i<c. mem s (q + i) = mem s (q + k - i)) \<and>
     (c < k div 2 \<longrightarrow> mem s (q + c) \<noteq> mem s (q + k - c)) \<and>
     (if char_le sg (mem s (q + c)) (mem s (q + k - c))
      then p = q \<and> mem s' = mem s \<and> writes s' = writes s \<and>
           reads s' = reads s @ scan_reads q k c
      else p = b \<and> writes s' = writes s @ map (\<lambda>i. b + i) [0..<k] \<and>
           reads s' = reads s @ scan_reads q k c @ map (\<lambda>i. q + k - 1 - i) [0..<k] \<and>
           (\<forall>a. a < b \<or> b + k \<le> a \<longrightarrow> mem s' a = mem s a) \<and>
           (b + k \<le> q \<or> q + k \<le> b \<longrightarrow> (\<forall>i<k. mem s' (b + i) = mem s (q + k - 1 - i))))"
proof -
  obtain q' qr' c s1 where sc: "scan k q (q + k) 0 s = ((q', qr', c), s1)"
    by (metis prod_cases3 surj_pair)
  have "k div 2 - 0 \<le> q + k" by simp
  from scan_result [OF sc this]
  obtain n where n: "c = n" "n = 0 \<or> c \<le> k div 2" "q' = q + n" "qr' + n = q + k"
      "mem s1 = mem s" "writes s1 = writes s"
      "reads s1 = reads s @ concat (map (\<lambda>i. [q + i, q + k - i]) [0..<Suc n])"
      "\<forall>i<n. mem s (q + i) = mem s (q + k - i)"
      "\<not> (mem s q' = mem s qr' \<and> c < k div 2)"
    by auto
  have cle: "c \<le> k div 2" using n(1,2) by auto
  have qr': "qr' = q + k - c" using n(1,4) by simp
  have q': "q' = q + c" using n(1,3) by simp
  have orig: "q' - c = q" "qr' + c = q + k" using n(1,3,4) by simp_all
  let ?s2 = "load qr' (load q' s1)"
  have s2: "mem ?s2 = mem s" "writes ?s2 = writes s" "reads ?s2 = reads s @ scan_reads q k c"
    using n(1,5,6,7) q' qr' by (simp_all add: load_def scan_reads_def)
  show ?thesis
  proof (cases "char_le sg (mem s (q + c)) (mem s (q + k - c))")
    case True
    with run sc have "p = q" "s' = ?s2"
      by (auto simp: normalize_kmer_def Let_def n(5) q' qr')
    with True s2 cle n(1,8,9) q' qr' sc show ?thesis
      by (intro exI [of _ c]) auto
  next
    case False
    with run sc have p: "p = b" and s': "s' = reverse_copy_n k (q + k) b ?s2"
      using orig by (auto simp: normalize_kmer_def Let_def n(5) reverse_copy_def simp flip: q' qr')
    have w: "writes s' = writes s @ map (\<lambda>i. b + i) [0..<k]"
      and r: "reads s' = reads s @ scan_reads q k c @ map (\<lambda>i. q + k - 1 - i) [0..<k]"
      unfolding s' using reverse_copy_n_log [of k "q + k" b ?s2] s2 by simp_all
    have out: "\<forall>a. a < b \<or> b + k \<le> a \<longrightarrow> mem s' a = mem s a"
      unfolding s' using reverse_copy_n_outside [of _ b k "q + k" ?s2] s2(1) by simp
    have ins: "b + k \<le> q \<or> q + k \<le> b \<longrightarrow> (\<forall>i<k. mem s' (b + i) = mem s (q + k - 1 - i))"
    proof (intro impI allI)
      fix i assume d: "b + k \<le> q \<or> q + k \<le> b" and i: "i < k"
      have "mem (reverse_copy_n k (q + k) b ?s2) (b + i) = mem ?s2 (q + k - 1 - i)"
        by (rule reverse_copy_n_inside [OF i]) (use d in auto)
      then show "mem s' (b + i) = mem s (q + k - 1 - i)"
        unfolding s' using s2(1) by simp
    qed
    from False p w r out ins cle n(1,8,9) q' qr' sc show ?thesis
      by (intro exI [of _ c]) auto
  qed
qed

lemma set_scan_reads: "c \<le> k div 2 \<Longrightarrow> set (scan_reads q k c) \<subseteq> {q..q + k}"
  by (auto simp: scan_reads_def)

lemma take2_scan_reads: "take 2 (scan_reads q k c @ xs) = [q, q + k]"
proof -
  have "[0..<Suc c] = 0 # map Suc [0..<c]" by (rule upt_Suc_shift)
  then show ?thesis by (simp add: scan_reads_def del: upt_Suc)
qed

text \<open>
  Claim C10.  A call of \<open>normalize_kmer\<close> reads only bytes at offsets 0 to \<open>k\<close> inclusive from
  the start of the window; the first comparison reads offset 0 and offset \<open>k\<close>, the byte one
  past the window, because the mirror pointer starts at \<open>query_8 + kmer_size\<close>.  It writes
  only into the caller's buffer, at most \<open>k\<close> bytes, and only when it returns the buffer.
  When the buffer and the window do not overlap, which \<open>std::reverse_copy\<close> requires of its
  caller, the bytes of the window are the same afterwards.
\<close>

theorem normalize_kmer_accesses:
  assumes run: "normalize_kmer signed_char query_8 kmer_raw_8 k (init_state m) = (p, s')"
  shows "set (reads s') \<subseteq> {query_8..query_8 + k} \<and>
         take 2 (reads s') = [query_8, query_8 + k] \<and>
         set (writes s') \<subseteq> {kmer_raw_8..<kmer_raw_8 + k} \<and>
         length (writes s') \<le> k \<and>
         (p \<noteq> kmer_raw_8 \<longrightarrow> writes s' = []) \<and>
         (kmer_raw_8 + k \<le> query_8 \<or> query_8 + k \<le> kmer_raw_8 \<longrightarrow>
            window (mem s') query_8 k = window m query_8 k)"
proof -
  from normalize_kmer_cases [OF run] obtain c where c: "c \<le> k div 2"
    and br: "if char_le signed_char (mem (init_state m) (query_8 + c)) (mem (init_state m) (query_8 + k - c))
      then p = query_8 \<and> mem s' = mem (init_state m) \<and> writes s' = writes (init_state m) \<and>
           reads s' = reads (init_state m) @ scan_reads query_8 k c
      else p = kmer_raw_8 \<and> writes s' = writes (init_state m) @ map (\<lambda>i. kmer_raw_8 + i) [0..<k] \<and>
           reads s' = reads (init_state m) @ scan_reads query_8 k c @ map (\<lambda>i. query_8 + k - 1 - i) [0..<k] \<and>
           (\<forall>a. a < kmer_raw_8 \<or> kmer_raw_8 + k \<le> a \<longrightarrow> mem s' a = mem (init_state m) a) \<and>
           (kmer_raw_8 + k \<le> query_8 \<or> query_8 + k \<le> kmer_raw_8 \<longrightarrow>
              (\<forall>i<k. mem s' (kmer_raw_8 + i) = mem (init_state m) (query_8 + k - 1 - i)))"
    by blast
  note sr = set_scan_reads [OF c, of query_8]
  show ?thesis
  proof (cases "char_le signed_char (mem (init_state m) (query_8 + c)) (mem (init_state m) (query_8 + k - c))")
    case True
    with br have f: "p = query_8" "mem s' = m" "writes s' = []" "reads s' = scan_reads query_8 k c"
      by (simp_all add: init_state_def)
    show ?thesis
      using sr take2_scan_reads [of query_8 k c "[]"] by (simp add: f)
  next
    case False
    with br have f: "p = kmer_raw_8" "writes s' = map (\<lambda>i. kmer_raw_8 + i) [0..<k]"
      "reads s' = scan_reads query_8 k c @ map (\<lambda>i. query_8 + k - 1 - i) [0..<k]"
      "\<forall>a. a < kmer_raw_8 \<or> kmer_raw_8 + k \<le> a \<longrightarrow> mem s' a = m a"
      by (simp_all add: init_state_def)
    have r: "set (reads s') \<subseteq> {query_8..query_8 + k}"
      using sr by (auto simp: f(3))
    have t: "take 2 (reads s') = [query_8, query_8 + k]"
      unfolding f(3) by (rule take2_scan_reads)
    have u: "window (mem s') query_8 k = window m query_8 k"
      if "kmer_raw_8 + k \<le> query_8 \<or> query_8 + k \<le> kmer_raw_8"
      using f(4) that by (auto simp: window_def)
    show ?thesis
      using r t u by (auto simp: f(1,2))
  qed
qed

lemma demo_run:
  "normalize_kmer True 0 10 2 (init_state (mem_of (bytes_of ''CAA''))) =
    (10, \<lparr>mem = (mem_of (bytes_of ''CAA''))(10 := 65, 11 := 67), reads = [0, 2, 0, 2, 1, 0], writes = [10, 11]\<rparr>)"
  by (simp add: normalize_kmer_def scan.simps init_state_def mem_of_def bytes_of_def byte_of_def
      load_def store_def char_le_def Let_def reverse_copy_def numeral_2_eq_2)

lemma window_rev:
  "\<forall>i<k. f (b + i) = g (q + k - 1 - i) \<Longrightarrow> window f b k = rev (window g q k)"
  by (auto simp: window_def list_eq_iff_nth_eq rev_nth)

text \<open>
  Claim C2, as amended.  For a window of \<open>k \<ge> 1\<close> bytes and a buffer that does not overlap
  it, \<open>normalize_kmer\<close> returns \<open>k\<close> bytes that are either the window itself, returned in
  place with nothing written, or the byte-wise reversal of the window (the bytes are not
  complemented), written into the caller's buffer.  Which of the two is decided where the
  two-pointer scan stops: the original window is returned when the byte under the left
  pointer is \<open>\<le>\<close> the byte under the mirror pointer.
\<close>

theorem normalize_kmer_window:
  assumes run: "normalize_kmer signed_char query_8 kmer_raw_8 k (init_state m) = (p, s')"
    and k: "1 \<le> k"
    and sep: "kmer_raw_8 + k \<le> query_8 \<or> query_8 + k \<le> kmer_raw_8"
  shows "length (result_window k (p, s')) = k \<and>
     (case fst (scan k query_8 (query_8 + k) 0 (init_state m)) of
        (q, qr, counter) \<Rightarrow>
          if char_le signed_char (m q) (m qr)
          then p = query_8 \<and> writes s' = [] \<and> mem s' = m \<and>
               result_window k (p, s') = window m query_8 k
          else p = kmer_raw_8 \<and> set (writes s') = {kmer_raw_8..<kmer_raw_8 + k} \<and>
               result_window k (p, s') = rev (window m query_8 k))"
proof -
  let ?s = "init_state m"
  from normalize_kmer_cases [OF run] obtain c where c: "c \<le> k div 2"
    and sc: "fst (scan k query_8 (query_8 + k) 0 ?s) = (query_8 + c, query_8 + k - c, c)"
    and br: "if char_le signed_char (mem ?s (query_8 + c)) (mem ?s (query_8 + k - c))
      then p = query_8 \<and> mem s' = mem ?s \<and> writes s' = writes ?s \<and>
           reads s' = reads ?s @ scan_reads query_8 k c
      else p = kmer_raw_8 \<and> writes s' = writes ?s @ map (\<lambda>i. kmer_raw_8 + i) [0..<k] \<and>
           reads s' = reads ?s @ scan_reads query_8 k c @ map (\<lambda>i. query_8 + k - 1 - i) [0..<k] \<and>
           (\<forall>a. a < kmer_raw_8 \<or> kmer_raw_8 + k \<le> a \<longrightarrow> mem s' a = mem ?s a) \<and>
           (kmer_raw_8 + k \<le> query_8 \<or> query_8 + k \<le> kmer_raw_8 \<longrightarrow>
              (\<forall>i<k. mem s' (kmer_raw_8 + i) = mem ?s (query_8 + k - 1 - i)))"
    by blast
  have len: "length (result_window k (p, s')) = k"
    by (simp add: result_window_def window_def)
  have m: "mem ?s = m" "writes ?s = []" by (simp_all add: init_state_def)
  show ?thesis
  proof (cases "char_le signed_char (m (query_8 + c)) (m (query_8 + k - c))")
    case True
    with br m have "p = query_8" "mem s' = m" "writes s' = []" by simp_all
    with True len sc show ?thesis
      by (simp add: result_window_def)
  next
    case False
    with br m sep have f: "p = kmer_raw_8" "writes s' = map (\<lambda>i. kmer_raw_8 + i) [0..<k]"
      "\<forall>i<k. mem s' (kmer_raw_8 + i) = m (query_8 + k - 1 - i)"
      by simp_all
    have w: "result_window k (p, s') = rev (window m query_8 k)"
      unfolding result_window_def fst_conv snd_conv f(1) by (rule window_rev [OF f(3)])
    have ws: "set (writes s') = {kmer_raw_8..<kmer_raw_8 + k}"
      unfolding f(2) by (auto simp: image_iff)
    from False len sc f(1) w ws show ?thesis
      by simp
  qed
qed

lemma orig_run:
  "normalize_kmer True 0 10 4 (init_state (mem_of (bytes_of ''ACGTA''))) =
    (0, \<lparr>mem = mem_of (bytes_of ''ACGTA''), reads = [0, 4, 1, 3, 1, 3], writes = []\<rparr>)"
  by (simp add: normalize_kmer_def scan.simps init_state_def mem_of_def bytes_of_def byte_of_def
      load_def store_def char_le_def Let_def reverse_copy_def)

lemma orig_scan:
  "fst (scan 4 0 (0 + 4) 0 (init_state (mem_of (bytes_of ''ACGTA'')))) = (1, 3, 1)"
  by (simp add: scan.simps init_state_def mem_of_def bytes_of_def byte_of_def load_def Let_def)

lemma orig_char_le:
  "char_le True (mem_of (bytes_of ''ACGTA'') 1) (mem_of (bytes_of ''ACGTA'') 3)"
  by (simp add: char_le_def mem_of_def bytes_of_def byte_of_def)

lemma demo_scan:
  "fst (scan 2 0 (0 + 2) 0 (init_state (mem_of (bytes_of ''CAA'')))) = (0, 2, 0)"
  by (simp add: scan.simps init_state_def mem_of_def bytes_of_def byte_of_def load_def Let_def)

lemma demo_char_le:
  "\<not> char_le True (mem_of (bytes_of ''CAA'') 0) (mem_of (bytes_of ''CAA'') 2)"
  by (simp add: char_le_def mem_of_def bytes_of_def byte_of_def)

text \<open>
  The amended claim C2 on two calls.  At the window \<open>CA\<close> followed by the byte \<open>A\<close> the scan
  stops at once, \<open>C\<close> is greater than the byte under the mirror pointer, and the buffer
  receives \<open>AC\<close>.  At the window \<open>ACGT\<close> followed by \<open>A\<close> the scan stops after one step with
  \<open>C\<close> under the left and \<open>T\<close> under the mirror pointer, and the window is returned in place.
\<close>

theorem normalize_kmer_window_witness:
  "(1::nat) \<le> 2 \<and> ((10::nat) + 2 \<le> 0 \<or> (0::nat) + 2 \<le> 10) \<and>
   fst (scan 2 0 (0 + 2) 0 (init_state (mem_of (bytes_of ''CAA'')))) = (0, 2, 0) \<and>
   \<not> char_le True (mem_of (bytes_of ''CAA'') 0) (mem_of (bytes_of ''CAA'') 2) \<and>
   result_window 2 (normalize_kmer True 0 10 2 (init_state (mem_of (bytes_of ''CAA''))))
     = rev (window (mem_of (bytes_of ''CAA'')) 0 2) \<and>
   (1::nat) \<le> 4 \<and> ((10::nat) + 4 \<le> 0 \<or> (0::nat) + 4 \<le> 10) \<and>
   fst (scan 4 0 (0 + 4) 0 (init_state (mem_of (bytes_of ''ACGTA'')))) = (1, 3, 1) \<and>
   char_le True (mem_of (bytes_of ''ACGTA'') 1) (mem_of (bytes_of ''ACGTA'') 3) \<and>
   result_window 4 (normalize_kmer True 0 10 4 (init_state (mem_of (bytes_of ''ACGTA''))))
     = window (mem_of (bytes_of ''ACGTA'')) 0 4"
proof -
  have k: "(1::nat) \<le> 2" and sep: "(10::nat) + 2 \<le> 0 \<or> (0::nat) + 2 \<le> 10"
    by simp_all
  from normalize_kmer_window [OF demo_run k sep] demo_char_le
  have a: "result_window 2 (normalize_kmer True 0 10 2 (init_state (mem_of (bytes_of ''CAA''))))
     = rev (window (mem_of (bytes_of ''CAA'')) 0 2)"
    unfolding demo_scan demo_run by simp
  have k4: "(1::nat) \<le> 4" and sep4: "(10::nat) + 4 \<le> 0 \<or> (0::nat) + 4 \<le> 10"
    by simp_all
  from normalize_kmer_window [OF orig_run k4 sep4] orig_char_le
  have b: "result_window 4 (normalize_kmer True 0 10 4 (init_state (mem_of (bytes_of ''ACGTA''))))
     = window (mem_of (bytes_of ''ACGTA'')) 0 4"
    unfolding orig_scan orig_run by simp
  from k sep demo_scan demo_char_le a k4 sep4 orig_scan orig_char_le b show ?thesis
    by blast
qed

lemma demo_window:
  "result_window 2 (normalize_kmer True 0 10 2 (init_state (mem_of (bytes_of ''CAA''))))
     = bytes_of ''AC''"
  unfolding demo_run
  by (simp add: result_window_def window_def bytes_of_def byte_of_def numeral_2_eq_2)

lemma spec_canonical_CA: "spec_canonical (bytes_of ''CA'') = bytes_of ''CA''"
  by (simp add: spec_canonical_def spec_reverse_complement_def spec_complement_def
      bytes_of_def byte_of_def)

text \<open>
  Claim C2 as stated fails on the window \<open>CA\<close> (followed by \<open>A\<close> in the query): its reverse
  complement is \<open>TG\<close>, so the canonical form of the specification is \<open>CA\<close>, and
  \<open>normalize_kmer\<close> returns \<open>AC\<close>.
\<close>

theorem normalize_kmer_canonical_counterexample:
  "result_window 2 (normalize_kmer True 0 10 2 (init_state (mem_of (bytes_of ''CAA''))))
     \<noteq> spec_canonical (bytes_of ''CA'')"
  unfolding demo_window spec_canonical_CA
  by (simp add: bytes_of_def byte_of_def)

text \<open>
  Claim C10 on two calls with the buffer at address 10: the window \<open>ACGT\<close> followed by \<open>A\<close>,
  where the original window is returned and nothing is written, and the window \<open>CA\<close>
  followed by \<open>A\<close>, where the buffer is written and returned and the window stays as it was.
\<close>

theorem normalize_kmer_accesses_witness:
  "fst (normalize_kmer True 0 10 4 (init_state (mem_of (bytes_of ''ACGTA'')))) \<noteq> 10 \<and>
   set (reads (snd (normalize_kmer True 0 10 4 (init_state (mem_of (bytes_of ''ACGTA''))))))
      \<subseteq> {0..0 + 4} \<and>
   take 2 (reads (snd (normalize_kmer True 0 10 4 (init_state (mem_of (bytes_of ''ACGTA''))))))
      = [0, 0 + 4] \<and>
   writes (snd (normalize_kmer True 0 10 4 (init_state (mem_of (bytes_of ''ACGTA''))))) = [] \<and>
   ((10::nat) + 2 \<le> 0 \<or> (0::nat) + 2 \<le> 10) \<and>
   fst (normalize_kmer True 0 10 2 (init_state (mem_of (bytes_of ''CAA'')))) = 10 \<and>
   set (writes (snd (normalize_kmer True 0 10 2 (init_state (mem_of (bytes_of ''CAA''))))))
      \<subseteq> {10..<10 + 2} \<and>
   window (mem (snd (normalize_kmer True 0 10 2 (init_state (mem_of (bytes_of ''CAA'')))))) 0 2
      = window (mem_of (bytes_of ''CAA'')) 0 2"
proof -
  have sep: "(10::nat) + 2 \<le> 0 \<or> (0::nat) + 2 \<le> 10" by simp
  from normalize_kmer_accesses [OF orig_run]
  have a: "fst (normalize_kmer True 0 10 4 (init_state (mem_of (bytes_of ''ACGTA'')))) \<noteq> 10 \<and>
      set (reads (snd (normalize_kmer True 0 10 4 (init_state (mem_of (bytes_of ''ACGTA''))))))
        \<subseteq> {0..0 + 4} \<and>
      take 2 (reads (snd (normalize_kmer True 0 10 4 (init_state (mem_of (bytes_of ''ACGTA''))))))
        = [0, 0 + 4] \<and>
      writes (snd (normalize_kmer True 0 10 4 (init_state (mem_of (bytes_of ''ACGTA''))))) = []"
    unfolding orig_run by simp
  from normalize_kmer_accesses [OF demo_run] sep
  have b: "fst (normalize_kmer True 0 10 2 (init_state (mem_of (bytes_of ''CAA'')))) = 10 \<and>
      set (writes (snd (normalize_kmer True 0 10 2 (init_state (mem_of (bytes_of ''CAA''))))))
        \<subseteq> {10..<10 + 2} \<and>
      window (mem (snd (normalize_kmer True 0 10 2 (init_state (mem_of (bytes_of ''CAA'')))))) 0 2
        = window (mem_of (bytes_of ''CAA'')) 0 2"
    unfolding demo_run by simp
  from a b sep show ?thesis
    by blast
qed

section \<open>Verification: base pair map and classic index reader\<close>

lemma byte_codes:
  "byte_of CHR ''A'' = 65" "byte_of CHR ''C'' = 67" "byte_of CHR ''G'' = 71" "byte_of CHR ''T'' = 84"
  by (simp_all add: byte_of_def)

text \<open>
  Claim C4, as amended.  The table printed by \<open>print_basepair_map\<close> maps \<open>A\<close> to \<open>T\<close>,
  \<open>T\<close> to \<open>A\<close>, \<open>C\<close> to \<open>G\<close>, \<open>G\<close> to \<open>C\<close>, and every other byte value to 0.
\<close>

theorem basepair_map_values:
  "basepair (byte_of CHR ''A'') = byte_of CHR ''T'' \<and>
   basepair (byte_of CHR ''T'') = byte_of CHR ''A'' \<and>
   basepair (byte_of CHR ''C'') = byte_of CHR ''G'' \<and>
   basepair (byte_of CHR ''G'') = byte_of CHR ''C'' \<and>
   (\<forall>c. c \<notin> {byte_of CHR ''A'', byte_of CHR ''C'', byte_of CHR ''G'', byte_of CHR ''T''}
      \<longrightarrow> basepair c = 0)"
proof -
  have other: "basepair c = 0" if "c \<noteq> 65" "c \<noteq> 67" "c \<noteq> 71" "c \<noteq> 84" for c
  proof -
    have lt: "unat c < 256" using unsigned_less [of c, where ?'a = nat] by simp
    have ne: "unat c \<noteq> 65" "unat c \<noteq> 67" "unat c \<noteq> 71" "unat c \<noteq> 84"
      using that by (simp_all add: word_unat_eq_iff)
    show ?thesis
      using lt ne by (simp add: basepair_def basepair_map_def byte_codes)
  qed
  show ?thesis
    using other by (simp add: basepair_def basepair_map_def byte_codes)
qed

text \<open>
  The amended claim C4 at the byte \<open>N\<close>, which is none of the four bases.
\<close>

theorem basepair_map_values_witness:
  "byte_of CHR ''N'' \<notin> {byte_of CHR ''A'', byte_of CHR ''C'', byte_of CHR ''G'', byte_of CHR ''T''}
   \<and> basepair (byte_of CHR ''N'') = 0"
  using basepair_map_values by (simp add: byte_of_def)

text \<open>
  Claim C4 as stated fails at the byte \<open>N\<close>: the table does not map it to itself.
\<close>

theorem basepair_other_counterexample:
  "basepair (byte_of CHR ''N'') \<noteq> byte_of CHR ''N''"
  by (simp add: basepair_def basepair_map_def byte_of_def)

text \<open>
  Claim C9.  A classic index reader exposes page size 1, whatever its header holds.
\<close>

theorem page_size_one: "base_page_size b = 1"
  by (simp add: base_page_size_def)

section \<open>Verification: print_kmers\<close>

lemma print_kmers_loop_windows:
  "bound + kmer_size \<le> length qry + 1 \<Longrightarrow> i \<le> bound \<Longrightarrow>
   print_kmers_loop c qry kmer_size bound i out =
     Inr (out @ map (\<lambda>j. c (take kmer_size (drop j qry))) [i..<bound])"
proof (induction c qry kmer_size bound i out rule: print_kmers_loop.induct)
  case (1 c qry kmer_size bound i out)
  show ?case
  proof (cases "i < bound")
    case True
    with "1.prems" have inb: "i + kmer_size \<le> length qry + 1" and le: "i + 1 \<le> bound"
      and tk: "i + kmer_size \<le> length qry"
      by auto
    from tk have w: "take kmer_size (drop i (qry @ [CHR 0x00])) = take kmer_size (drop i qry)"
      by simp
    have "print_kmers_loop c qry kmer_size bound i out =
        print_kmers_loop c qry kmer_size bound (i + 1)
          (out @ [c (take kmer_size (drop i (qry @ [CHR 0x00])))])"
      using True inb by (subst print_kmers_loop.simps) simp
    also have "\<dots> = Inr ((out @ [c (take kmer_size (drop i (qry @ [CHR 0x00])))]) @
        map (\<lambda>j. c (take kmer_size (drop j qry))) [i + 1..<bound])"
      by (rule "1.IH" [OF True inb "1.prems"(1) le])
    also have "\<dots> = Inr (out @ map (\<lambda>j. c (take kmer_size (drop j qry))) [i..<bound])"
      unfolding w using True by (simp add: upt_conv_Cons)
    finally show ?thesis .
  next
    case False
    with "1.prems" have "i = bound" by simp
    then show ?thesis
      by (subst print_kmers_loop.simps) simp
  qed
qed

lemma loop_bound_no_wrap:
  "kmer_size \<le> length qry \<Longrightarrow> length qry < 2 ^ 64 \<Longrightarrow>
   loop_bound qry kmer_size = length qry - kmer_size"
proof -
  assume le: "kmer_size \<le> length qry" and lt: "length qry < 2 ^ 64"
  have "(of_nat (length qry) :: 64 word) - of_nat kmer_size = of_nat (length qry - kmer_size)"
    using le by simp
  moreover have "unat (of_nat (length qry - kmer_size) :: 64 word) = length qry - kmer_size"
    using lt by (simp add: unat_of_nat take_bit_nat_eq_self)
  ultimately show ?thesis
    by (simp add: loop_bound_def)
qed

lemma print_kmers_windows:
  "kmer_size \<le> length qry \<Longrightarrow> length qry < 2 ^ 64 \<Longrightarrow>
   print_kmers c qry kmer_size =
     Inr (map (\<lambda>j. c (take kmer_size (drop j qry))) [0..<length qry - kmer_size])"
  unfolding print_kmers_def
  by (simp add: loop_bound_no_wrap print_kmers_loop_windows)

text \<open>
  Claim C3.  The claim asks for \<open>|Q| - k + 1\<close> windows, eight for \<open>ACGTACGTACG\<close> with
  \<open>k = 4\<close>.  The loop of \<open>print_kmers\<close> stops one short: on that qry it hands seven
  windows to \<open>canonicalize_kmer\<close> and never reaches the last one, \<open>TACG\<close> at offset 7.
\<close>

theorem print_kmers_example:
  "print_kmers c ''ACGTACGTACG'' 4 =
     Inr (map c [''ACGT'', ''CGTA'', ''GTAC'', ''TACG'', ''ACGT'', ''CGTA'', ''GTAC''])"
proof -
  have upt7: "[0..<7] = [0, 1, 2, 3, 4, 5, 6::nat]"
    by (simp add: upt_conv_Cons)
  have len: "length ''ACGTACGTACG'' - 4 = 7"
    by simp
  have "print_kmers c ''ACGTACGTACG'' 4 =
      Inr (map (\<lambda>j. c (take 4 (drop j ''ACGTACGTACG''))) [0..<length ''ACGTACGTACG'' - 4])"
    by (rule print_kmers_windows) simp_all
  also have "\<dots> = Inr (map c [''ACGT'', ''CGTA'', ''GTAC'', ''TACG'', ''ACGT'', ''CGTA'', ''GTAC''])"
    unfolding len upt7 by simp
  finally show ?thesis .
qed

section \<open>Verification: the check of the output directory\<close>

lemma remove_all_gone: "\<not> fs_exists (remove_all p paths) p"
  by (simp add: fs_exists_def remove_all_def below_def)

lemma remove_all_below_gone: "below p q \<Longrightarrow> \<not> fs_exists (remove_all p paths) q"
  by (simp add: fs_exists_def remove_all_def)

lemma fs_put_err: "fs (put_err ls w) = fs w" "out_lines (put_err ls w) = out_lines w"
  by (simp_all add: put_err_def)

text \<open>
  Claim C5.  When the command line parses and the output directory exists, both
  \<open>classic_construct\<close> and \<open>compact_construct\<close> stop in \<open>die\<close> if neither the clobber nor
  the continue flag is given: the file system is as before and the library construction is
  never called.  With the clobber flag, the output directory and everything below it is
  removed first, and the rest of the subtool, the construction included, runs on the file
  system without it.
\<close>

theorem output_directory_guard:
  assumes parsed: "cp_process argv = (msgs, Some a)"
    and there: "fs_exists (fs w) (out_dir a)"
  shows "(\<not> clobber a \<and> \<not> continue_flag a \<longrightarrow>
            classic_construct cp_process cp_print_result load_documents lib_classic_construct argv w =
              (Die ''Output directory exists, will not overwrite without --clobber'',
               put_err (cp_print_result a) (put_err msgs w)) \<and>
            compact_construct cp_process cp_print_result lib_compact_construct argv w =
              (Die ''Output directory exists, will not overwrite without --clobber'',
               put_err (cp_print_result a) (put_err msgs w)) \<and>
            fs (put_err (cp_print_result a) (put_err msgs w)) = fs w) \<and>
         (clobber a \<longrightarrow>
            classic_construct cp_process cp_print_result load_documents lib_classic_construct argv w =
              classic_build load_documents lib_classic_construct a
                ((put_err (cp_print_result a) (put_err msgs w))\<lparr>fs := remove_all (out_dir a) (fs w)\<rparr>) \<and>
            compact_construct cp_process cp_print_result lib_compact_construct argv w =
              compact_build lib_compact_construct a
                ((put_err (cp_print_result a) (put_err msgs w))\<lparr>fs := remove_all (out_dir a) (fs w)\<rparr>) \<and>
            (\<forall>q. below (out_dir a) q \<longrightarrow> \<not> fs_exists (remove_all (out_dir a) (fs w)) q))"
proof -
  let ?w1 = "put_err (cp_print_result a) (put_err msgs w)"
  have ex: "fs_exists (fs ?w1) (out_dir a)"
    using there by (simp add: fs_put_err)
  have stop: "check_output a ?w1 =
      Inl ''Output directory exists, will not overwrite without --clobber''"
    if "\<not> clobber a" "\<not> continue_flag a"
    using ex that by (simp add: check_output_def)
  have erase: "check_output a ?w1 = Inr (?w1\<lparr>fs := remove_all (out_dir a) (fs w)\<rparr>)"
    if "clobber a"
    using ex that by (simp add: check_output_def fs_put_err)
  show ?thesis
    using stop erase parsed
    by (auto simp: classic_construct_def compact_construct_def Let_def fs_put_err
        remove_all_below_gone)
qed

text \<open>
  Claim C5 on a file system that holds \<open>in\<close>, \<open>out\<close> and \<open>out/index.cobs\<close>, once without
  flags and once with the clobber flag.
\<close>

theorem output_directory_guard_witness:
  "fs_exists (fs demo_world) (out_dir (demo_args False)) \<and>
   \<not> clobber (demo_args False) \<and> \<not> continue_flag (demo_args False) \<and>
   classic_construct (\<lambda>argv. ([], Some (demo_args False))) (\<lambda>a. []) demo_load_documents demo_lib_classic_construct [] demo_world =
     (Die ''Output directory exists, will not overwrite without --clobber'', demo_world) \<and>
   compact_construct (\<lambda>argv. ([], Some (demo_args False))) (\<lambda>a. []) demo_lib_compact_construct [] demo_world =
     (Die ''Output directory exists, will not overwrite without --clobber'', demo_world) \<and>
   fs_exists (fs demo_world) (out_dir (demo_args True)) \<and> clobber (demo_args True) \<and>
   classic_construct (\<lambda>argv. ([], Some (demo_args True))) (\<lambda>a. []) demo_load_documents demo_lib_classic_construct [] demo_world =
     classic_build demo_load_documents demo_lib_classic_construct (demo_args True) (demo_world\<lparr>fs := {''in''}\<rparr>) \<and>
   compact_construct (\<lambda>argv. ([], Some (demo_args True))) (\<lambda>a. []) demo_lib_compact_construct [] demo_world =
     compact_build demo_lib_compact_construct (demo_args True) (demo_world\<lparr>fs := {''in''}\<rparr>)"
proof -
  have there: "fs_exists (fs demo_world) (out_dir (demo_args c))" for c
    by (simp add: fs_exists_def demo_world_def demo_args_def)
  have flags: "\<not> clobber (demo_args False)" "\<not> continue_flag (demo_args False)"
    "clobber (demo_args True)"
    by (simp_all add: demo_args_def)
  have idle: "put_err [] (put_err [] demo_world) = demo_world"
    by (simp add: put_err_def)
  have gone: "remove_all (out_dir (demo_args True)) (fs demo_world) = {''in''}"
    by (auto simp: remove_all_def demo_args_def demo_world_def below_def)
  from output_directory_guard [where cp_process = "\<lambda>argv. ([], Some (demo_args False))"
      and argv = "[]" and msgs = "[]" and a = "demo_args False" and w = demo_world
      and cp_print_result = "\<lambda>a. []" and load_documents = demo_load_documents
      and lib_classic_construct = demo_lib_classic_construct
      and lib_compact_construct = demo_lib_compact_construct, OF refl there]
    output_directory_guard [where cp_process = "\<lambda>argv. ([], Some (demo_args True))"
      and argv = "[]" and msgs = "[]" and a = "demo_args True" and w = demo_world
      and cp_print_result = "\<lambda>a. []" and load_documents = demo_load_documents
      and lib_classic_construct = demo_lib_classic_construct
      and lib_compact_construct = demo_lib_compact_construct, OF refl there]
    flags there
  show ?thesis
    unfolding idle gone by simp
qed

section \<open>Verification: error paths of the command-line tool\<close>

lemma main_loop_found:
  "arg1 \<in> fst ` set ts \<Longrightarrow>
   main_loop impl ts arg0 arg1 rest w =
     Some (try_subtool (impl arg1 (take 255 (arg0 @ '' '' @ arg1) # rest) w))"
proof (induction ts)
  case Nil
  then show ?case by simp
next
  case (Cons t ts)
  obtain name shortline d where t: "t = (name, shortline, d)"
    by (cases t)
  show ?case
  proof (cases "name = arg1")
    case True
    with t show ?thesis by simp
  next
    case False
    with Cons.prems t have "arg1 \<in> fst ` set ts" by auto
    with Cons.IH False t show ?thesis by simp
  qed
qed

lemma main_loop_missing:
  "arg1 \<notin> fst ` set ts \<Longrightarrow> main_loop impl ts arg0 arg1 rest w = None"
  by (induction ts) auto

lemma err_main_usage: "err_lines (snd (main_usage arg0 w)) = err_lines w"
  by (simp add: main_usage_def put_out_def)

text \<open>
  Claim C8, as amended.  An exception that leaves a recognised subtool makes \<open>main\<close> write
  the single line \<open>EXCEPTION: ...\<close> to standard error and return \<open>-1\<close>; a subtool that
  stops in \<open>die\<close> ends the run with its diagnostic.  In particular \<open>query\<close>, given a file
  whose header is neither classic nor compact, stops in \<open>die\<close> with the diagnostic
  \<open>Could not open index path\<close> and writes no line to standard output.  An unknown subtool
  name is not reported that way: \<open>main\<close> writes the message and the usage text to standard
  output and returns 0.
\<close>

theorem error_paths:
  "(sub \<in> fst ` set subtools \<longrightarrow>
      (impl sub (take 255 (prog @ '' '' @ sub) # rest) w = (Throw e, w') \<longrightarrow>
         main impl prog (sub # rest) w = (Return (- 1), put_err [''EXCEPTION: '' @ e] w')) \<and>
      (impl sub (take 255 (prog @ '' '' @ sub) # rest) w = (Die msg, w') \<longrightarrow>
         main impl prog (sub # rest) w = (Die msg, w'))) \<and>
   (sub \<notin> fst ` set subtools \<longrightarrow>
      main impl prog (sub # rest) w =
        (Return 0,
         put_out ((''Unknown subtool '' @ [CHR 0x27] @ sub @ [CHR 0x27]) # usage_lines prog) w)) \<and>
   (cp_process argv = (msgs, Some a) \<and> \<not> classic_header (in_file a) \<and> \<not> compact_header (in_file a) \<longrightarrow>
      query cp_process classic_header compact_header classic_search compact_search argv w =
        (Die (''Could not open index path '' @ [CHR 0x22] @ in_file a @ [CHR 0x22]), put_err msgs w) \<and>
      out_lines (put_err msgs w) = out_lines w)"
  by (auto simp: main_def main_loop_found main_loop_missing try_subtool_def main_usage_def
      put_out_def put_err_def query_def Let_def)


lemma names: "''doc_list'' \<in> fst ` set subtools" "''query'' \<in> fst ` set subtools"
  "''bogus'' \<notin> fst ` set subtools"
  by (simp_all add: subtools_def)

lemma demo_doc_list:
  "demo_impl ''doc_list'' (take 255 (''cobs'' @ '' '' @ ''doc_list'') # []) empty_world =
     (Throw ''no such directory'', empty_world)"
  by (simp add: demo_impl_def)

lemma demo_parse:
  "demo_cp_process [take 255 (''cobs'' @ '' '' @ ''query''), ''idx'', ''ACGT''] =
     ([], Some \<lparr>in_file = ''idx'', query_string = ''ACGT'', num_results = 100\<rparr>)"
  by (simp add: demo_cp_process_def)

lemma put_err_nil: "put_err [] w = w"
  by (simp add: put_err_def)

text \<open>
  The amended claim C8 on three runs: \<open>doc_list\<close> throwing, \<open>query\<close> on a file without an
  index header, and a subtool name that is not in the table.
\<close>

theorem error_paths_witness:
  "''doc_list'' \<in> fst ` set subtools \<and>
   demo_impl ''doc_list'' (take 255 (''cobs'' @ '' '' @ ''doc_list'') # []) empty_world =
     (Throw ''no such directory'', empty_world) \<and>
   main demo_impl ''cobs'' [''doc_list''] empty_world =
     (Return (- 1), put_err [''EXCEPTION: no such directory''] empty_world) \<and>
   ''query'' \<in> fst ` set subtools \<and>
   demo_impl ''query'' [take 255 (''cobs'' @ '' '' @ ''query''), ''idx'', ''ACGT''] empty_world =
     (Die (''Could not open index path '' @ [CHR 0x22] @ ''idx'' @ [CHR 0x22]), empty_world) \<and>
   main demo_impl ''cobs'' [''query'', ''idx'', ''ACGT''] empty_world =
     (Die (''Could not open index path '' @ [CHR 0x22] @ ''idx'' @ [CHR 0x22]), empty_world) \<and>
   ''bogus'' \<notin> fst ` set subtools \<and>
   main demo_impl ''cobs'' [''bogus''] empty_world =
     (Return 0, put_out ((''Unknown subtool '' @ [CHR 0x27] @ ''bogus'' @ [CHR 0x27]) # usage_lines ''cobs'')
        empty_world)"
proof -
  note q = error_paths [where cp_process = demo_cp_process
      and argv = "[take 255 (''cobs'' @ '' '' @ ''query''), ''idx'', ''ACGT'']"
      and msgs = "[]" and a = "\<lparr>in_file = ''idx'', query_string = ''ACGT'', num_results = 100\<rparr>"
      and classic_header = "\<lambda>f. False" and compact_header = "\<lambda>f. False"
      and classic_search = demo_search and compact_search = demo_search
      and w = empty_world and impl = demo_impl and prog = "''cobs''"]
  have die: "demo_impl ''query'' [take 255 (''cobs'' @ '' '' @ ''query''), ''idx'', ''ACGT''] empty_world =
     (Die (''Could not open index path '' @ [CHR 0x22] @ ''idx'' @ [CHR 0x22]), empty_world)"
    using q [where sub = "''bogus''" and rest = "[]"] demo_parse
    by (simp add: demo_impl_def put_err_nil)
  have t: "main demo_impl ''cobs'' [''doc_list''] empty_world =
     (Return (- 1), put_err [''EXCEPTION: no such directory''] empty_world)"
    using q [where sub = "''doc_list''" and rest = "[]" and e = "''no such directory''" and w' = empty_world] names(1) demo_doc_list
    by simp
  have d: "main demo_impl ''cobs'' [''query'', ''idx'', ''ACGT''] empty_world =
     (Die (''Could not open index path '' @ [CHR 0x22] @ ''idx'' @ [CHR 0x22]), empty_world)"
    using q [where sub = "''query''" and rest = "[''idx'', ''ACGT'']" and w' = empty_world
        and msg = "''Could not open index path '' @ [CHR 0x22] @ ''idx'' @ [CHR 0x22]"] names(2) die
    by simp
  have u: "main demo_impl ''cobs'' [''bogus''] empty_world =
     (Return 0, put_out ((''Unknown subtool '' @ [CHR 0x27] @ ''bogus'' @ [CHR 0x27]) # usage_lines ''cobs'')
        empty_world)"
    using q [where sub = "''bogus''" and rest = "[]"] names(3)
    by simp
  from names demo_doc_list die t d u show ?thesis
    by blast
qed

text \<open>
  Claim C8 as stated fails for an unknown subtool name: the run returns 0 and writes
  nothing to standard error.
\<close>

theorem unknown_subtool_counterexample:
  "fst (main idle_impl ''cobs'' [''bogus''] empty_world) = Return 0 \<and>
   err_lines (snd (main idle_impl ''cobs'' [''bogus''] empty_world)) = []"
  using names(3)
  by (simp add: main_def main_loop_missing main_usage_def put_out_def empty_world_def)

section \<open>Verification: the Bloom filter sizing\<close>

lemma ratio_pos:
  assumes h: "1 \<le> h" and p: "0 < p" "p < 1"
  shows "0 < calc_signature_size_ratio h p"
proof -
  have e: "0 < 1 / real h" using h by simp
  have "p powr (1 / real h) < 1"
    using p e by (simp add: powr01_less_one)
  moreover have "0 < p powr (1 / real h)"
    using p by simp
  ultimately have "ln (1 - p powr (1 / real h)) < 0"
    by simp
  moreover have "- real h < 0" using h by simp
  ultimately have "0 < - real h / ln (1 - p powr (1 / real h))"
    by (simp only: zero_less_divide_iff) simp
  then show ?thesis
    by (simp only: calc_signature_size_ratio_def)
qed

text \<open>
  Claim C6.  For \<open>h \<ge> 1\<close> hashes and a false positive rate \<open>0 < p < 1\<close>, the signature size
  for \<open>n\<close> elements is the ceiling of \<open>- n h / ln (1 - p\<^sup>1\<^sup>/\<^sup>h)\<close>, raised to 1 when it is
  smaller, and it does not decrease when \<open>n\<close> grows.
\<close>

theorem signature_size_formula_mono:
  assumes h: "1 \<le> h" and p: "0 < p" "p < 1"
  shows "int (calc_signature_size n h p) =
           max 1 \<lceil>- (real n * real h) / ln (1 - p powr (1 / real h))\<rceil> \<and>
         1 \<le> calc_signature_size n h p \<and>
         (\<forall>n'. n \<le> n' \<longrightarrow> calc_signature_size n h p \<le> calc_signature_size n' h p)"
proof -
  let ?r = "calc_signature_size_ratio h p"
  have r: "0 < ?r" by (rule ratio_pos [OF h p])
  have eq: "real n * ?r = - (real n * real h) / ln (1 - p powr (1 / real h))"
    by (simp add: calc_signature_size_ratio_def)
  have nn: "0 \<le> real n * ?r" using r by simp
  then have c: "0 \<le> \<lceil>real n * ?r\<rceil>" by (simp add: ceiling_le_iff [symmetric] le_ceiling_iff)
  have f: "int (calc_signature_size n h p) = max 1 \<lceil>real n * ?r\<rceil>"
    unfolding calc_signature_size_def using c by (simp only: of_nat_max int_nat_eq) simp
  have m: "calc_signature_size n h p \<le> calc_signature_size n' h p" if "n \<le> n'" for n'
  proof -
    from that r have "real n * ?r \<le> real n' * ?r"
      by (simp add: mult_right_mono)
    then have "\<lceil>real n * ?r\<rceil> \<le> \<lceil>real n' * ?r\<rceil>"
      by (rule ceiling_mono)
    then have "nat \<lceil>real n * ?r\<rceil> \<le> nat \<lceil>real n' * ?r\<rceil>"
      by (rule nat_mono)
    then have "max 1 (nat \<lceil>real n * ?r\<rceil>) \<le> max 1 (nat \<lceil>real n' * ?r\<rceil>)"
      by (rule max.mono [OF order_refl])
    then show ?thesis
      by (simp only: calc_signature_size_def)
  qed
  show ?thesis
    using f m unfolding eq by (simp add: calc_signature_size_def)
qed

text \<open>
  Claim C6 at three hashes and false positive rate one tenth, for five and eight elements.
\<close>

theorem signature_size_formula_mono_witness:
  "(1::nat) \<le> 3 \<and> (0::real) < 1 / 10 \<and> (1::real) / 10 < 1 \<and> (5::nat) \<le> 8 \<and>
   1 \<le> calc_signature_size 5 3 (1 / 10) \<and>
   calc_signature_size 5 3 (1 / 10) \<le> calc_signature_size 8 3 (1 / 10)"
proof -
  have h: "(1::nat) \<le> 3" and p: "(0::real) < 1 / 10" "(1::real) / 10 < 1" and n: "(5::nat) \<le> 8"
    by simp_all
  from signature_size_formula_mono [OF h p, of 5] n h p show ?thesis
    by blast
qed

section \<open>Verification: the index and the search\<close>

lemma bit_at_and:
  "bit_at (map (\<lambda>(x, y). x AND y) (zip a b)) i \<longleftrightarrow> bit_at a i \<and> bit_at b i"
  by (auto simp: bit_at_def bit_and_iff)

lemma bit_at_ones: "bit_at (replicate n 255) i \<longleftrightarrow> i < 8 * n"
proof -
  have "(255 :: byte) = - 1" by simp
  then have "bit (255 :: byte) (i mod 8)"
    by (simp only: bit_minus_1_iff) (simp add: possible_bit_word)
  then show ?thesis
    by (auto simp: bit_at_def)
qed

lemma bit_at_fold_and:
  "bit_at (fold (\<lambda>row buf. map (\<lambda>(x, y). x AND y) (zip row buf)) rows buf0) i \<longleftrightarrow>
     bit_at buf0 i \<and> (\<forall>row \<in> set rows. bit_at row i)"
  by (induction rows arbitrary: buf0) (auto simp: bit_at_and)

lemma bit_at_and_rows:
  "bit_at (and_rows n rows) i \<longleftrightarrow> i < 8 * n \<and> (\<forall>row \<in> set rows. bit_at row i)"
  by (simp add: and_rows_def bit_at_fold_and bit_at_ones)

lemma length_add_row: "length (add_row buf cs) = length cs"
  by (simp add: add_row_def)

lemma nth_add_row:
  "i < length cs \<Longrightarrow> add_row buf cs ! i = (if bit_at buf i then cs ! i + 1 else cs ! i)"
  by (simp add: add_row_def)

lemma fold_add_row_length:
  "length (fold (\<lambda>t cs. add_row (f t) cs) ts cs0) = length cs0"
  by (induction ts arbitrary: cs0) (simp_all add: length_add_row)

lemma fold_add_row_nth:
  "i < length cs0 \<Longrightarrow>
   fold (\<lambda>t cs. add_row (f t) cs) ts cs0 ! i
     = cs0 ! i + of_nat (length (filter (\<lambda>t. bit_at (f t) i) ts))"
proof (induction ts arbitrary: cs0)
  case Nil
  then show ?case by simp
next
  case (Cons t ts)
  have "i < length (add_row (f t) cs0)"
    using Cons.prems by (simp add: length_add_row)
  from Cons.IH [OF this] Cons.prems show ?case
    by (simp add: nth_add_row)
qed

lemma length_accumulate: "length (accumulate hash idx ts) = 8 * row_size idx"
  by (simp add: accumulate_def fold_add_row_length)

lemma passes_iff:
  "i < 8 * row_size idx \<Longrightarrow>
   bit_at (and_rows (row_size idx) (kmer_rows hash idx t)) i \<longleftrightarrow> passes hash idx i t"
  by (simp add: bit_at_and_rows passes_def list_all_iff)

lemma accumulate_nth:
  assumes "i < 8 * row_size idx"
  shows "accumulate hash idx ts ! i = of_nat (length (filter (passes hash idx i) ts))"
proof -
  have "accumulate hash idx ts ! i =
      of_nat (length (filter (\<lambda>t. bit_at (and_rows (row_size idx) (kmer_rows hash idx t)) i) ts))"
    unfolding accumulate_def using assms by (subst fold_add_row_nth) simp_all
  also have "(\<lambda>t. bit_at (and_rows (row_size idx) (kmer_rows hash idx t)) i) = passes hash idx i"
    using assms by (simp add: passes_iff fun_eq_iff)
  finally show ?thesis .
qed

lemma length_scores:
  "length (scores hash idx q) = min (length (file_names idx)) (8 * row_size idx)"
  by (simp add: scores_def length_accumulate min.commute)

lemma scores_nth:
  assumes "d < length (scores hash idx q)"
  shows "scores hash idx q ! d = of_nat (passing hash idx d q)"
proof -
  from assms have "d < length (file_names idx)" "d < 8 * row_size idx"
    by (simp_all add: length_scores)
  then show ?thesis
    by (simp add: scores_def passing_def accumulate_nth)
qed

lemma length_kmers: "length (kmers q k) = length q + 1 - k"
  by (simp add: kmers_def)

lemma passing_le: "passing hash idx d q \<le> length q + 1 - term_size idx"
  unfolding passing_def using length_filter_le [of "passes hash idx d" "kmers q (term_size idx)"]
  by (simp add: length_kmers)

lemma set_top_k: "set (top_k K xs) \<subseteq> set xs"
  unfolding top_k_def using set_take_subset [of K "sort_key (\<lambda>(s, name). - int (unat s)) xs"]
  by simp

lemma top_k_all: "length xs \<le> K \<Longrightarrow> set (top_k K xs) = set xs"
  by (simp add: top_k_def)

lemma fold_set_bits:
  "length (fold (\<lambda>r g. g[r := True]) rs f) = length f \<and>
   (\<forall>j<length f. fold (\<lambda>r g. g[r := True]) rs f ! j \<longleftrightarrow> f ! j \<or> j \<in> set rs)"
proof (induction rs arbitrary: f)
  case Nil
  show ?case by simp
next
  case (Cons r rs)
  have upd: "f[r := True] ! j \<longleftrightarrow> f ! j \<or> j = r" if "j < length f" for j
    using that by (cases "j = r") simp_all
  have "length (fold (\<lambda>r g. g[r := True]) rs (f[r := True])) = length f"
    using Cons.IH [of "f[r := True]"] by simp
  moreover have "fold (\<lambda>r g. g[r := True]) rs (f[r := True]) ! j \<longleftrightarrow>
      f ! j \<or> j \<in> set (r # rs)" if "j < length f" for j
    using Cons.IH [of "f[r := True]"] upd [OF that] that by auto
  ultimately show ?case by simp
qed

lemma insert_term_bits:
  "length (insert_term hash c h m t f) = length f"
  "j < length f \<Longrightarrow>
     insert_term hash c h m t f ! j \<longleftrightarrow> f ! j \<or> j \<in> set (row_indices hash (canonical_term c t) h m)"
  using fold_set_bits [of "row_indices hash (canonical_term c t) h m" f]
  by (simp_all add: insert_term_def)

lemma fold_insert_term:
  "length (fold (insert_term hash c h m) ts f) = length f \<and>
   (\<forall>j<length f. fold (insert_term hash c h m) ts f ! j \<longleftrightarrow>
      f ! j \<or> (\<exists>t\<in>set ts. j \<in> set (row_indices hash (canonical_term c t) h m)))"
proof (induction ts arbitrary: f)
  case Nil
  show ?case by simp
next
  case (Cons t ts)
  show ?case
    using Cons.IH [of "insert_term hash c h m t f"]
    by (auto simp: insert_term_bits)
qed

lemma doc_filter_bits:
  "length (doc_filter hash c h m ts) = m"
  "j < m \<Longrightarrow> doc_filter hash c h m ts ! j \<longleftrightarrow>
     (\<exists>t\<in>set ts. j \<in> set (row_indices hash (canonical_term c t) h m))"
  using fold_insert_term [of hash c h m ts "replicate m False"]
  by (simp_all add: doc_filter_def)

lemma row_indices_less: "0 < m \<Longrightarrow> r \<in> set (row_indices hash t h m) \<Longrightarrow> r < m"
  by (auto simp: row_indices_def)

lemma length_pack_row: "length (pack_row bits) = (length bits + 7) div 8"
  by (simp add: pack_row_def)

lemma concat_row:
  "\<forall>x\<in>set xs. length x = n \<Longrightarrow> r < length xs \<Longrightarrow>
   take n (drop (r * n) (concat xs)) = xs ! r"
proof (induction xs arbitrary: r)
  case Nil
  then show ?case by simp
next
  case (Cons x xs)
  show ?case
  proof (cases r)
    case 0
    with Cons.prems show ?thesis by simp
  next
    case (Suc r')
    with Cons.prems have "take n (drop (r' * n) (concat xs)) = xs ! r'"
      by (intro Cons.IH) auto
    with Suc Cons.prems show ?thesis by simp
  qed
qed

lemma ceil8: "q < (n + 7) div 8 \<longleftrightarrow> 8 * q < (n::nat)"
  by arith

lemma bit_at_pack_row_split:
  assumes j: "j < 8"
  shows "bit_at (pack_row bits) (8 * q + j) \<longleftrightarrow> 8 * q + j < length bits \<and> bits ! (8 * q + j)"
proof -
  have dm: "(8 * q + j) div 8 = q" "(8 * q + j) mod 8 = j"
    using j by simp_all
  show ?thesis
  proof (cases "8 * q < length bits")
    case True
    then have q: "q < (length bits + 7) div 8" by (simp only: ceil8)
    have nth: "pack_row bits ! q = pack_byte (take 8 (drop (8 * q) bits))"
      using q by (simp add: pack_row_def)
    have len: "length (take 8 (drop (8 * q) bits)) = min 8 (length bits - 8 * q)"
      by simp
    have "bit (pack_byte (take 8 (drop (8 * q) bits))) j \<longleftrightarrow>
        j < length bits - 8 * q \<and> take 8 (drop (8 * q) bits) ! j"
      unfolding pack_byte_def bit_horner_sum_bit_word_iff len using j by auto
    also have "\<dots> \<longleftrightarrow> 8 * q + j < length bits \<and> bits ! (8 * q + j)"
      using j True by (auto simp: less_diff_conv add.commute)
    finally show ?thesis
      using q by (simp only: bit_at_def dm nth length_pack_row) simp
  next
    case False
    then have "\<not> q < (length bits + 7) div 8" by (simp add: ceil8)
    with False show ?thesis
      by (simp add: bit_at_def dm length_pack_row)
  qed
qed

lemma bit_at_pack_row: "bit_at (pack_row bits) d \<longleftrightarrow> d < length bits \<and> bits ! d"
proof -
  have "d mod 8 < 8" by simp
  from bit_at_pack_row_split [OF this, of bits "d div 8"] show ?thesis
    by simp
qed

lemma builder_fields:
  "term_size (classic_builder hash sig_size k c h docs) = k"
  "canonicalize (classic_builder hash sig_size k c h docs) = c"
  "num_hashes (classic_builder hash sig_size k c h docs) = h"
  "signature_size (classic_builder hash sig_size k c h docs) = sig_size (max_terms docs)"
  "row_size (classic_builder hash sig_size k c h docs) = (length docs + 7) div 8"
  "file_names (classic_builder hash sig_size k c h docs) = map doc_name docs"
  by (simp_all add: classic_builder_def Let_def)

lemma builder_fetch_row:
  assumes "r < sig_size (max_terms docs)"
  shows "fetch_row (classic_builder hash sig_size k c h docs) r =
     pack_row (map (\<lambda>d. doc_filter hash c h (sig_size (max_terms docs)) (doc_terms d) ! r) docs)"
proof -
  let ?m = "sig_size (max_terms docs)"
  let ?rows = "map (\<lambda>r. pack_row (map (\<lambda>f. f ! r)
      (map (\<lambda>d. doc_filter hash c h ?m (doc_terms d)) docs))) [0..<?m]"
  have len: "\<forall>x\<in>set ?rows. length x = (length docs + 7) div 8"
    by (auto simp: length_pack_row)
  have r: "r < length ?rows" using assms by simp
  have "fetch_row (classic_builder hash sig_size k c h docs) r =
      take ((length docs + 7) div 8) (drop (r * ((length docs + 7) div 8)) (concat ?rows))"
    by (simp add: fetch_row_def classic_builder_def Let_def)
  also have "\<dots> = ?rows ! r"
    by (rule concat_row [OF len r])
  also have "\<dots> = pack_row (map (\<lambda>d. doc_filter hash c h ?m (doc_terms d) ! r) docs)"
    using assms by (simp add: comp_def)
  finally show ?thesis .
qed

lemma builder_bit:
  assumes "r < sig_size (max_terms docs)" "d < length docs"
  shows "bit_at (fetch_row (classic_builder hash sig_size k c h docs) r) d \<longleftrightarrow>
     (\<exists>t\<in>set (doc_terms (docs ! d)).
        r \<in> set (row_indices hash (canonical_term c t) h (sig_size (max_terms docs))))"
  using assms by (simp add: builder_fetch_row bit_at_pack_row doc_filter_bits)

lemma builder_rows_set:
  assumes m: "0 < sig_size (max_terms docs)" and d: "d < length docs"
    and t: "t \<in> set (doc_terms (docs ! d))"
    and r: "r \<in> set (row_indices hash (canonical_term c t) h (sig_size (max_terms docs)))"
  shows "r < sig_size (max_terms docs) \<and>
         bit_at (fetch_row (classic_builder hash sig_size k c h docs) r) d"
proof -
  have lt: "r < sig_size (max_terms docs)"
    by (rule row_indices_less [OF m r])
  from builder_bit [where sig_size = sig_size and docs = docs, OF lt d] t r lt show ?thesis by blast
qed

lemma builder_passes:
  assumes m: "0 < sig_size (max_terms docs)" and d: "d < length docs"
    and t: "t \<in> set (doc_terms (docs ! d))"
  shows "passes hash (classic_builder hash sig_size k c h docs) d t"
  unfolding passes_def kmer_rows_def list_all_iff builder_fields
  using builder_rows_set [where sig_size = sig_size and docs = docs, OF m d t] by auto

lemma kmers_single: "length q = k \<Longrightarrow> kmers q k = [q]"
  by (simp add: kmers_def)

lemma builder_score_one:
  assumes m: "0 < sig_size (max_terms docs)" and d: "d < length docs"
    and t: "t \<in> set (doc_terms (docs ! d))" and k: "length t = k"
  shows "d < length (scores hash (classic_builder hash sig_size k c h docs) t) \<and>
         scores hash (classic_builder hash sig_size k c h docs) t ! d = 1"
proof -
  let ?idx = "classic_builder hash sig_size k c h docs"
  have "d < 8 * ((length docs + 7) div 8)" using d by arith
  with d have len: "d < length (scores hash ?idx t)"
    by (simp add: length_scores builder_fields)
  have "passing hash ?idx d t = 1"
    using builder_passes [where sig_size = sig_size and docs = docs and hash = hash and k = k
        and c = c and h = h, OF m d t] k
    by (simp add: passing_def builder_fields kmers_single)
  with scores_nth [OF len] len show ?thesis by simp
qed

lemma builder_length_scores:
  "length (scores hash (classic_builder hash sig_size k c h docs) q) = length docs"
proof -
  have "length docs \<le> 8 * ((length docs + 7) div 8)" by arith
  then show ?thesis
    by (simp add: length_scores builder_fields)
qed

lemma compact_page_scores:
  assumes m: "\<forall>n. 0 < sig_size n"
  shows "0 < P \<Longrightarrow> d < length docs \<Longrightarrow> t \<in> set (doc_terms (docs ! d)) \<Longrightarrow> length t = k \<Longrightarrow>
     d < length (concat (map (\<lambda>pg. scores hash pg t)
           (map (classic_builder hash sig_size k c h) (pages_of P docs)))) \<and>
     concat (map (\<lambda>pg. scores hash pg t)
           (map (classic_builder hash sig_size k c h) (pages_of P docs))) ! d = 1 \<and>
     d < length (concat (map file_names
           (map (classic_builder hash sig_size k c h) (pages_of P docs)))) \<and>
     concat (map file_names
           (map (classic_builder hash sig_size k c h) (pages_of P docs))) ! d = doc_name (docs ! d)"
proof (induction P docs arbitrary: d rule: pages_of.induct)
  case (1 n xs)
  let ?B = "classic_builder hash sig_size k c h"
  let ?S = "scores hash (?B (take n xs)) t"
  let ?N = "file_names (?B (take n xs))"
  let ?RS = "concat (map (\<lambda>pg. scores hash pg t) (map ?B (pages_of n (drop n xs))))"
  let ?RN = "concat (map file_names (map ?B (pages_of n (drop n xs))))"
  from "1.prems" have ne: "\<not> (n = 0 \<or> xs = [])" by auto
  then have unf: "pages_of n xs = take n xs # pages_of n (drop n xs)"
    by (subst pages_of.simps) simp
  have sc: "concat (map (\<lambda>pg. scores hash pg t) (map ?B (pages_of n xs))) = ?S @ ?RS"
    and nm: "concat (map file_names (map ?B (pages_of n xs))) = ?N @ ?RN"
    by (simp_all add: unf)
  have lS: "length ?S = min n (length xs)"
    by (simp add: builder_length_scores min.commute)
  have lN: "length ?N = min n (length xs)"
    by (simp add: builder_fields min.commute)
  show ?case
  proof (cases "d < n")
    case True
    with "1.prems" have d: "d < length (take n xs)" and x: "take n xs ! d = xs ! d"
      by simp_all
    have t: "t \<in> set (doc_terms (take n xs ! d))"
      using "1.prems" x by simp
    have pos: "0 < sig_size (max_terms (take n xs))" using m by simp
    from builder_score_one [where sig_size = sig_size and docs = "take n xs" and hash = hash
        and c = c and h = h, OF pos d t "1.prems"(4)]
    have one: "?S ! d = 1" by simp
    have nd: "?N ! d = doc_name (xs ! d)"
      using d x by (simp add: builder_fields)
    from True "1.prems"(2) have dl: "d < min n (length xs)" by simp
    have dS: "d < length ?S" and dN: "d < length ?N"
      using dl lS lN by simp_all
    show ?thesis
      unfolding sc nm using dS dN one nd by (simp add: nth_append)
  next
    case False
    with "1.prems" have d: "d - n < length (drop n xs)" and x: "drop n xs ! (d - n) = xs ! d"
      and mn: "min n (length xs) = n"
      by simp_all
    have t: "t \<in> set (doc_terms (drop n xs ! (d - n)))"
      using "1.prems" x by simp
    from "1.IH" [OF ne "1.prems"(1) d t "1.prems"(4)]
    have ih: "d - n < length ?RS" "?RS ! (d - n) = 1" "d - n < length ?RN"
      "?RN ! (d - n) = doc_name (xs ! d)"
      using x by simp_all
    have dS: "\<not> d < length ?S" "length ?S = n" and dN: "\<not> d < length ?N" "length ?N = n"
      using False lS lN mn by simp_all
    have "d < length ?S + length ?RS" "d < length ?N + length ?RN"
      using ih(1,3) dS dN False by linarith+
    then show ?thesis
      unfolding sc nm using dS dN ih by (simp add: nth_append)
  qed
qed

lemma zip_nth_mem: "d < length xs \<Longrightarrow> d < length ys \<Longrightarrow> (xs ! d, ys ! d) \<in> set (zip xs ys)"
  by (auto simp: set_zip)

lemma pages_names_length:
  "0 < P \<Longrightarrow>
   length (concat (map file_names (map (classic_builder hash sig_size k c h) (pages_of P docs))))
     = length docs"
proof (induction P docs rule: pages_of.induct)
  case (1 n xs)
  show ?case
  proof (cases "xs = []")
    case True
    then show ?thesis by (subst pages_of.simps) simp
  next
    case False
    with "1.prems" have ne: "\<not> (n = 0 \<or> xs = [])" by simp
    then have unf: "pages_of n xs = take n xs # pages_of n (drop n xs)"
      by (subst pages_of.simps) simp
    from "1.IH" [OF ne "1.prems"] show ?thesis
      unfolding unf by (simp add: builder_fields)
  qed
qed

lemma builder_search_mem:
  assumes pos: "0 < sig_size (max_terms docs)" and d: "d < length docs"
    and t: "t \<in> set (doc_terms (docs ! d))" and k: "length t = k" and K: "length docs \<le> K"
  shows "(1, doc_name (docs ! d)) \<in> set (search hash (classic_builder hash sig_size k c h docs) t K)"
proof -
  let ?idx = "classic_builder hash sig_size k c h docs"
  from builder_score_one [where sig_size = sig_size and docs = docs, OF pos d t k]
  have sc: "d < length (scores hash ?idx t)" "scores hash ?idx t ! d = 1"
    by simp_all
  have nm: "d < length (file_names ?idx)" "file_names ?idx ! d = doc_name (docs ! d)"
    using d by (simp_all add: builder_fields)
  have "(1, doc_name (docs ! d)) \<in> set (zip (scores hash ?idx t) (file_names ?idx))"
    using zip_nth_mem [OF sc(1) nm(1)] sc(2) nm(2) by simp
  moreover have "length (zip (scores hash ?idx t) (file_names ?idx)) \<le> K"
    using K by (simp add: builder_fields)
  ultimately show ?thesis
    by (simp add: search_def top_k_all)
qed

lemma builder_pages_mem:
  assumes m: "\<forall>n. 0 < sig_size n" and P: "0 < P" and d: "d < length docs"
    and t: "t \<in> set (doc_terms (docs ! d))" and k: "length t = k" and K: "length docs \<le> K"
  shows "(1, doc_name (docs ! d))
           \<in> set (search_pages hash (compact_builder hash sig_size k c h P docs) t K)"
proof -
  let ?cidx = "compact_builder hash sig_size k c h P docs"
  from compact_page_scores [where sig_size = sig_size, OF m P d t k]
  have c: "d < length (compact_scores hash ?cidx t)" "compact_scores hash ?cidx t ! d = 1"
    "d < length (compact_names ?cidx)" "compact_names ?cidx ! d = doc_name (docs ! d)"
    by (simp_all add: compact_scores_def compact_names_def compact_builder_def)
  have mem: "(1, doc_name (docs ! d)) \<in> set (zip (compact_scores hash ?cidx t) (compact_names ?cidx))"
    using zip_nth_mem [OF c(1) c(3)] c(2) c(4) by simp
  have "length (compact_names ?cidx) = length docs"
    using pages_names_length [OF P] by (simp add: compact_names_def compact_builder_def)
  then have "length (zip (compact_scores hash ?cidx t) (compact_names ?cidx)) \<le> K"
    using K by simp
  with mem show ?thesis
    by (simp add: search_pages_def top_k_all)
qed

text \<open>
  Claim C1.  Let a classic or a compact index be built from a list of documents, with a
  sizing that never yields zero rows.  For a document \<open>d\<close> and a \<open>k\<close>-mer \<open>t\<close> that its source
  emits, every one of the \<open>h\<close> rows at the indices \<open>hash\<^sub>i(t) mod m\<close> has bit \<open>d\<close> set, and the
  query that consists of \<open>t\<close> alone gives \<open>d\<close> the score 1, hence at least 1; the pair of
  that score and the name of \<open>d\<close> is in the result whenever the number of results asked for
  is not smaller than the number of documents.
\<close>

theorem no_false_negatives:
  assumes m: "\<forall>n. 0 < sig_size n" and d: "d < length docs"
    and t: "t \<in> set (doc_terms (docs ! d))" and k: "length t = k"
  shows
    "(\<forall>r\<in>set (row_indices hash (canonical_term c t) h
              (signature_size (classic_builder hash sig_size k c h docs))).
        r < signature_size (classic_builder hash sig_size k c h docs) \<and>
        bit_at (fetch_row (classic_builder hash sig_size k c h docs) r) d) \<and>
     scores hash (classic_builder hash sig_size k c h docs) t ! d = 1 \<and>
     (length docs \<le> K \<longrightarrow>
        (1, doc_name (docs ! d)) \<in> set (search hash (classic_builder hash sig_size k c h docs) t K)) \<and>
     (0 < P \<longrightarrow>
        compact_scores hash (compact_builder hash sig_size k c h P docs) t ! d = 1 \<and>
        (length docs \<le> K \<longrightarrow>
           (1, doc_name (docs ! d))
             \<in> set (search_pages hash (compact_builder hash sig_size k c h P docs) t K)))"
proof -
  let ?idx = "classic_builder hash sig_size k c h docs"
  let ?cidx = "compact_builder hash sig_size k c h P docs"
  have pos: "0 < sig_size (max_terms docs)" using m by simp
  have rows: "\<forall>r\<in>set (row_indices hash (canonical_term c t) h (signature_size ?idx)).
      r < signature_size ?idx \<and> bit_at (fetch_row ?idx r) d"
    unfolding builder_fields
    using builder_rows_set [where sig_size = sig_size and docs = docs, OF pos d t] by blast
  from builder_score_one [where sig_size = sig_size and docs = docs, OF pos d t k]
  have sc: "d < length (scores hash ?idx t)" "scores hash ?idx t ! d = 1"
    by simp_all
  have nm: "d < length (file_names ?idx)" "file_names ?idx ! d = doc_name (docs ! d)"
    using d by (simp_all add: builder_fields)
  have res: "(1, doc_name (docs ! d)) \<in> set (search hash ?idx t K)" if "length docs \<le> K"
    by (rule builder_search_mem [where sig_size = sig_size and docs = docs, OF pos d t k that])
  have cmp: "compact_scores hash ?cidx t ! d = 1 \<and>
      (length docs \<le> K \<longrightarrow> (1, doc_name (docs ! d)) \<in> set (search_pages hash ?cidx t K))"
    if P: "0 < P"
  proof -
    from compact_page_scores [where sig_size = sig_size, OF m P d t k]
    have "compact_scores hash ?cidx t ! d = 1"
      by (simp add: compact_scores_def compact_builder_def)
    moreover have "(1, doc_name (docs ! d)) \<in> set (search_pages hash ?cidx t K)"
      if "length docs \<le> K"
      by (rule builder_pages_mem [where sig_size = sig_size, OF m P d t k that])
    ultimately show ?thesis by blast
  qed
  from rows sc(2) res cmp show ?thesis
    by blast
qed

text \<open>
  Claim C1 on the collection of three documents, for document 0 and its term \<open>ACGT\<close>, with
  pages of two documents for the compact index.
\<close>

theorem no_false_negatives_witness:
  "(\<forall>n. 0 < demo_sig_size n) \<and> (0::nat) < length demo_docs \<and>
   bytes_of ''ACGT'' \<in> set (doc_terms (demo_docs ! 0)) \<and> length (bytes_of ''ACGT'') = 4 \<and>
   list_all (\<lambda>r. r < signature_size demo_index \<and> bit_at (fetch_row demo_index r) 0)
     (row_indices demo_hash (canonical_term False (bytes_of ''ACGT'')) 2
        (signature_size demo_index)) \<and>
   scores demo_hash demo_index (bytes_of ''ACGT'') ! 0 = 1 \<and>
   (1, doc_name (demo_docs ! 0)) \<in> set (search demo_hash demo_index (bytes_of ''ACGT'') 100) \<and>
   compact_scores demo_hash demo_pages (bytes_of ''ACGT'') ! 0 = 1 \<and>
   (1, doc_name (demo_docs ! 0)) \<in> set (search_pages demo_hash demo_pages (bytes_of ''ACGT'') 100)"
proof -
  have m: "\<forall>n. 0 < demo_sig_size n" by (simp add: demo_sig_size_def less_max_iff_disj)
  have d: "(0::nat) < length demo_docs" by (simp add: demo_docs_def)
  have t: "bytes_of ''ACGT'' \<in> set (doc_terms (demo_docs ! 0))" by (simp add: demo_docs_def)
  have k: "length (bytes_of ''ACGT'') = 4" by (simp add: bytes_of_def)
  have K: "length demo_docs \<le> 100" by (simp add: demo_docs_def)
  have P: "(0::nat) < 2" by simp
  from no_false_negatives [where sig_size = demo_sig_size and docs = demo_docs and hash = demo_hash
      and c = False and h = 2 and K = 100 and P = 2, OF m d t k] m d t k K P
  show ?thesis
    unfolding demo_index_def demo_pages_def list_all_iff by blast
qed

lemma score_entry:
  assumes "(s, name) \<in> set (zip (scores hash idx q) (file_names idx))"
  shows "(\<exists>d<length (file_names idx). name = file_names idx ! d \<and>
         s = of_nat (passing hash idx d q) \<and>
         passing hash idx d q \<le> length q + 1 - term_size idx \<and>
         (length q + 1 - term_size idx < 65536 \<longrightarrow> unat s = passing hash idx d q) \<and>
         (length q = term_size idx \<longrightarrow> s = 0 \<or> s = 1))"
proof -
  from assms obtain d where d: "d < length (scores hash idx q)" "d < length (file_names idx)"
    and s: "s = scores hash idx q ! d" and n: "name = file_names idx ! d"
    by (auto simp: set_zip)
  let ?p = "passing hash idx d q"
  have sp: "s = of_nat ?p" using s scores_nth [OF d(1)] by simp
  have le: "?p \<le> length q + 1 - term_size idx" by (rule passing_le)
  have u: "unat s = ?p" if "length q + 1 - term_size idx < 65536"
  proof -
    from that le have "?p < 2 ^ 16" by simp
    then show ?thesis
      unfolding sp by (simp add: unat_of_nat take_bit_nat_eq_self)
  qed
  have one: "s = 0 \<or> s = 1" if "length q = term_size idx"
  proof -
    from that le have "?p = 0 \<or> ?p = 1" by auto
    then show ?thesis unfolding sp by auto
  qed
  from d(2) n sp le u one show ?thesis
    by blast
qed

lemma zip_concat:
  "\<forall>x\<in>set ps. length (f x) = length (g x) \<Longrightarrow>
   zip (concat (map f ps)) (concat (map g ps)) = concat (map (\<lambda>x. zip (f x) (g x)) ps)"
  by (induction ps) simp_all

lemma pages_entry:
  assumes wf: "\<forall>pg\<in>set (pages cidx). length (file_names pg) \<le> 8 * row_size pg"
    and mem: "(s, name) \<in> set (zip (compact_scores hash cidx q) (compact_names cidx))"
  shows "\<exists>pg\<in>set (pages cidx). (s, name) \<in> set (zip (scores hash pg q) (file_names pg))"
proof -
  have "\<forall>pg\<in>set (pages cidx). length (scores hash pg q) = length (file_names pg)"
    using wf by (simp add: length_scores)
  from zip_concat [of "pages cidx" "\<lambda>pg. scores hash pg q" file_names, OF this] mem
  show ?thesis
    by (auto simp: compact_scores_def compact_names_def)
qed

text \<open>
  The scores of the modelled search.  Every pair of score and name that it returns, on a
  classic index or on the pages of a compact index, belongs to a document of the index; the
  score is the number of the query's \<open>k\<close>-mers that pass the \<open>h\<close>-wise AND test for that
  document, taken modulo \<open>2\<^sup>1\<^sup>6\<close>; that number is at most \<open>|Q| - k + 1\<close>; when the query
  has fewer than 65536 \<open>k\<close>-mers the score is that number itself; and a query of a single
  \<open>k\<close>-mer scores 0 or 1.
\<close>

lemma search_scores:
  "((s, name) \<in> set (search hash idx q K) \<longrightarrow>
      (\<exists>d<length (file_names idx). name = file_names idx ! d \<and>
         s = of_nat (passing hash idx d q) \<and>
         passing hash idx d q \<le> length q + 1 - term_size idx \<and>
         (length q + 1 - term_size idx < 65536 \<longrightarrow> unat s = passing hash idx d q) \<and>
         (length q = term_size idx \<longrightarrow> s = 0 \<or> s = 1))) \<and>
   ((\<forall>pg\<in>set (pages cidx). length (file_names pg) \<le> 8 * row_size pg) \<and>
    (s, name) \<in> set (search_pages hash cidx q K) \<longrightarrow>
      (\<exists>pg\<in>set (pages cidx).
      (\<exists>d<length (file_names pg). name = file_names pg ! d \<and>
         s = of_nat (passing hash pg d q) \<and>
         passing hash pg d q \<le> length q + 1 - term_size pg \<and>
         (length q + 1 - term_size pg < 65536 \<longrightarrow> unat s = passing hash pg d q) \<and>
         (length q = term_size pg \<longrightarrow> s = 0 \<or> s = 1))))"
proof (intro conjI impI)
  assume "(s, name) \<in> set (search hash idx q K)"
  then have "(s, name) \<in> set (zip (scores hash idx q) (file_names idx))"
    using set_top_k [of K "zip (scores hash idx q) (file_names idx)"] by (auto simp: search_def)
  then show "(\<exists>d<length (file_names idx). name = file_names idx ! d \<and>
         s = of_nat (passing hash idx d q) \<and>
         passing hash idx d q \<le> length q + 1 - term_size idx \<and>
         (length q + 1 - term_size idx < 65536 \<longrightarrow> unat s = passing hash idx d q) \<and>
         (length q = term_size idx \<longrightarrow> s = 0 \<or> s = 1))"
    by (rule score_entry)
next
  assume a: "(\<forall>pg\<in>set (pages cidx). length (file_names pg) \<le> 8 * row_size pg) \<and>
    (s, name) \<in> set (search_pages hash cidx q K)"
  then have "(s, name) \<in> set (zip (compact_scores hash cidx q) (compact_names cidx))"
    using set_top_k [of K "zip (compact_scores hash cidx q) (compact_names cidx)"]
    by (auto simp: search_pages_def)
  with a obtain pg where pg: "pg \<in> set (pages cidx)"
    "(s, name) \<in> set (zip (scores hash pg q) (file_names pg))"
    using pages_entry by blast
  from score_entry [OF pg(2)] pg(1)
  show "\<exists>pg\<in>set (pages cidx).
      (\<exists>d<length (file_names pg). name = file_names pg ! d \<and>
         s = of_nat (passing hash pg d q) \<and>
         passing hash pg d q \<le> length q + 1 - term_size pg \<and>
         (length q + 1 - term_size pg < 65536 \<longrightarrow> unat s = passing hash pg d q) \<and>
         (length q = term_size pg \<longrightarrow> s = 0 \<or> s = 1))"
    by blast
qed

lemma demo_hit:
  "(1, ''d0'') \<in> set (search demo_hash demo_index (bytes_of ''ACGT'') 100)"
proof -
  have pos: "0 < demo_sig_size (max_terms demo_docs)"
    by (simp add: demo_sig_size_def less_max_iff_disj)
  have d: "(0::nat) < length demo_docs" by (simp add: demo_docs_def)
  have t: "bytes_of ''ACGT'' \<in> set (doc_terms (demo_docs ! 0))" by (simp add: demo_docs_def)
  have k: "length (bytes_of ''ACGT'') = 4" by (simp add: bytes_of_def)
  have K: "length demo_docs \<le> 100" by (simp add: demo_docs_def)
  have n: "doc_name (demo_docs ! 0) = ''d0''" by (simp add: demo_docs_def)
  from builder_search_mem [where sig_size = demo_sig_size and docs = demo_docs and hash = demo_hash
      and c = False and h = 2, OF pos d t k K]
  show ?thesis
    unfolding demo_index_def n .
qed

lemma demo_pages_hit:
  "(1, ''d0'') \<in> set (search_pages demo_hash demo_pages (bytes_of ''ACGT'') 100)"
proof -
  have m: "\<forall>n. 0 < demo_sig_size n" by (simp add: demo_sig_size_def less_max_iff_disj)
  have d: "(0::nat) < length demo_docs" by (simp add: demo_docs_def)
  have t: "bytes_of ''ACGT'' \<in> set (doc_terms (demo_docs ! 0))" by (simp add: demo_docs_def)
  have k: "length (bytes_of ''ACGT'') = 4" by (simp add: bytes_of_def)
  have K: "length demo_docs \<le> 100" by (simp add: demo_docs_def)
  have n: "doc_name (demo_docs ! 0) = ''d0''" by (simp add: demo_docs_def)
  have P: "(0::nat) < 2" by simp
  from builder_pages_mem [where sig_size = demo_sig_size and docs = demo_docs and hash = demo_hash
      and c = False and h = 2, OF m P d t k K]
  show ?thesis
    unfolding demo_pages_def n .
qed

lemma builder_pages_wf:
  "\<forall>pg\<in>set (pages (compact_builder hash sig_size k c h P docs)).
     length (file_names pg) \<le> 8 * row_size pg \<and> term_size pg = k"
proof -
  have "length (xs :: document list) \<le> 8 * ((length xs + 7) div 8)" for xs
    by arith
  then show ?thesis
    by (auto simp: compact_builder_def builder_fields)
qed

text \<open>
  The scores of the modelled search on the collection of three documents and the query
  \<open>ACGT\<close>: the result holds the score 1 for \<open>d0\<close>, on the classic index and on the pages.
\<close>

lemma search_scores_example:
  "(1, ''d0'') \<in> set (search demo_hash demo_index (bytes_of ''ACGT'') 100) \<and>
   length (bytes_of ''ACGT'') + 1 - term_size demo_index < 65536 \<and>
   length (bytes_of ''ACGT'') = term_size demo_index \<and>
   (\<exists>d<length (file_names demo_index). ''d0'' = file_names demo_index ! d \<and>
      (1 :: 16 word) = of_nat (passing demo_hash demo_index d (bytes_of ''ACGT'')) \<and>
      unat (1 :: 16 word) = passing demo_hash demo_index d (bytes_of ''ACGT'')) \<and>
   list_all (\<lambda>pg. length (file_names pg) \<le> 8 * row_size pg) (pages demo_pages) \<and>
   (1, ''d0'') \<in> set (search_pages demo_hash demo_pages (bytes_of ''ACGT'') 100) \<and>
   (\<exists>pg\<in>set (pages demo_pages). \<exists>d<length (file_names pg). ''d0'' = file_names pg ! d \<and>
      (1 :: 16 word) = of_nat (passing demo_hash pg d (bytes_of ''ACGT'')) \<and>
      unat (1 :: 16 word) = passing demo_hash pg d (bytes_of ''ACGT''))"
proof -
  have k: "length (bytes_of ''ACGT'') = term_size demo_index"
    by (simp add: demo_index_def builder_fields bytes_of_def)
  then have b: "length (bytes_of ''ACGT'') + 1 - term_size demo_index < 65536"
    by simp
  have wf: "\<forall>pg\<in>set (pages demo_pages). length (file_names pg) \<le> 8 * row_size pg"
    and kp: "\<forall>pg\<in>set (pages demo_pages). length (bytes_of ''ACGT'') = term_size pg"
    using builder_pages_wf [of demo_hash demo_sig_size 4 False 2 2 demo_docs]
    by (simp_all add: demo_pages_def bytes_of_def)
  note th = search_scores [of 1 "''d0''" demo_hash demo_index "bytes_of ''ACGT''" 100 demo_pages]
  from th demo_hit k b have c1: "\<exists>d<length (file_names demo_index). ''d0'' = file_names demo_index ! d \<and>
      (1 :: 16 word) = of_nat (passing demo_hash demo_index d (bytes_of ''ACGT'')) \<and>
      unat (1 :: 16 word) = passing demo_hash demo_index d (bytes_of ''ACGT'')"
    by blast
  from th wf demo_pages_hit obtain pg d where pg: "pg \<in> set (pages demo_pages)"
    "d < length (file_names pg)" "''d0'' = file_names pg ! d"
    "(1 :: 16 word) = of_nat (passing demo_hash pg d (bytes_of ''ACGT''))"
    "length (bytes_of ''ACGT'') + 1 - term_size pg < 65536 \<longrightarrow>
       unat (1 :: 16 word) = passing demo_hash pg d (bytes_of ''ACGT'')"
    by blast
  from kp pg(1) have "length (bytes_of ''ACGT'') + 1 - term_size pg < 65536" by simp
  with pg have c2: "\<exists>pg\<in>set (pages demo_pages). \<exists>d<length (file_names pg). ''d0'' = file_names pg ! d \<and>
      (1 :: 16 word) = of_nat (passing demo_hash pg d (bytes_of ''ACGT'')) \<and>
      unat (1 :: 16 word) = passing demo_hash pg d (bytes_of ''ACGT'')"
    by blast
  from demo_hit k b c1 wf demo_pages_hit c2 show ?thesis
    unfolding list_all_iff by blast
qed

lemma kmers_replicate: "kmers (replicate n a) 1 = replicate n [a]"
proof -
  have "map (\<lambda>i. take 1 (drop i (replicate n a))) [0..<n] = map (\<lambda>i. [a]) [0..<n]"
  proof (rule map_cong [OF refl])
    fix i assume "i \<in> set [0..<n]"
    then have "0 < n - i" by simp
    then obtain j where "n - i = Suc j" by (cases "n - i") simp_all
    then show "take 1 (drop i (replicate n a)) = [a]" by simp
  qed
  then show ?thesis
    by (simp add: kmers_def map_replicate_const)
qed

lemma one_index_passes: "passes demo_hash one_index 0 [65]"
proof -
  have pos: "0 < (\<lambda>n::nat. 1::nat) (max_terms one_doc)" by simp
  have d: "(0::nat) < length one_doc" by (simp add: one_doc_def)
  have t: "[65] \<in> set (doc_terms (one_doc ! 0))" by (simp add: one_doc_def)
  from builder_passes [where sig_size = "\<lambda>n. 1" and docs = one_doc and hash = demo_hash
      and k = 1 and c = False and h = 1, OF pos d t]
  show ?thesis by (simp only: one_index_def)
qed

lemma one_index_passing: "passing demo_hash one_index 0 (replicate n 65) = n"
proof -
  have ts: "term_size one_index = 1" by (simp add: one_index_def builder_fields)
  show ?thesis
    unfolding passing_def ts kmers_replicate using one_index_passes by simp
qed

lemma one_index_scores: "scores demo_hash one_index (replicate 65536 65) = [0]"
proof -
  have len: "length (scores demo_hash one_index (replicate 65536 65)) = 1"
    unfolding one_index_def by (simp add: builder_length_scores one_doc_def)
  then have "(0::nat) < length (scores demo_hash one_index (replicate 65536 65))" by simp
  from scores_nth [OF this]
  have "scores demo_hash one_index (replicate 65536 65) ! 0 = of_nat 65536"
    by (simp only: one_index_passing)
  then have z: "scores demo_hash one_index (replicate 65536 65) ! 0 = 0" by simp
  from len obtain x where x: "scores demo_hash one_index (replicate 65536 65) = [x]"
    by (cases "scores demo_hash one_index (replicate 65536 65)") simp_all
  with z show ?thesis by simp
qed

text \<open>
  The 16-bit counter of the modelled search on a long query.  One document holds the term
  \<open>A\<close>; the query is the byte \<open>A\<close> repeated 65536 times, with \<open>k = 1\<close>.  All 65536
  \<open>k\<close>-mers pass for the document, and the counter is back at 0.  Whether the search of
  the program accepts a query of that length is not decided by the specification.
\<close>

lemma modelled_counter_wraps:
  "search demo_hash one_index (replicate 65536 65) 100 = [(0, ''d0'')] \<and>
   passing demo_hash one_index 0 (replicate 65536 65) = 65536"
proof -
  have "file_names one_index = [''d0'']"
    by (simp add: one_index_def builder_fields one_doc_def)
  then have "search demo_hash one_index (replicate 65536 65) 100 = [(0, ''d0'')]"
    by (simp add: search_def one_index_scores top_k_def)
  then show ?thesis
    by (simp only: one_index_passing)
qed

end
